theory Spec2Isabelle
  imports Complex_Main "HOL-Library.Sublist"
begin

section \<open>JavaScript values used by the compliance pipeline\<close>

text \<open>
  Strings are \<^typ>\<open>string\<close>. A value that may be \<open>undefined\<close> (or \<open>null\<close>) is an
  \<^typ>\<open>'a option\<close>, with \<^term>\<open>None\<close> for the absent value. The only falsy string is
  the empty one, so \<open>!v\<close> on an optional string is \<open>\<not> truthy v\<close>, and \<open>a || b\<close> is
  \<open>js_or a b\<close>.
\<close>

definition truthy :: "string option \<Rightarrow> bool" where
  "truthy v = (case v of None \<Rightarrow> False | Some s \<Rightarrow> s \<noteq> [])"

definition js_or :: "string option \<Rightarrow> string option \<Rightarrow> string option" where
  "js_or a b = (if truthy a then a else b)"

text \<open>\<open>s.includes(t)\<close>: \<open>t\<close> occurs in \<open>s\<close> as a contiguous run of characters.\<close>

fun includes_str :: "string \<Rightarrow> string \<Rightarrow> bool" where
  "includes_str [] t = (t = [])"
| "includes_str (c # cs) t = (prefix t (c # cs) \<or> includes_str cs t)"

lemma includes_str_sublist: "includes_str s t = sublist t s"
  by (induction s) (auto simp: sublist_Cons_right)

section \<open>The compliance evaluator: \<open>validateAsset\<close> (routes/validation.js)\<close>

text \<open>
  The records carry the fields \<open>validateAsset\<close> reads. A field the code (or a claim)
  allows to be missing is optional. Tag maps (\<open>properties\<close>, \<open>tags\<close>) are looked up by key
  only, so they are maps; \<open>requiredTags\<close> is iterated with \<open>Object.entries\<close>, so it is
  the list of its entries in iteration order. Discovery always sets \<open>name\<close>,
  \<open>catalog_name\<close> and \<open>environmentId\<close> of an asset, so these are plain strings
  (the spec's \<open>catalogName\<close> is the code's \<open>catalog_name\<close>).
\<close>

record asset =
  asset_id :: "string option"
  asset_name :: string
  fullName :: "string option"
  environmentId :: string
  catalog_name :: string
  schema_name :: "string option"
  assetType :: "string option"
  properties :: "(string \<rightharpoonup> string) option"
  tags :: "(string \<rightharpoonup> string) option"

record requirement =
  scope :: "string option"
  requiredTags :: "(string \<times> string) list option"
  severity :: "string option"
  reason :: "string option"

record agreement =
  agreement_id :: "string option"
  agreement_name :: "string option"
  environments :: "string list option"
  shares :: "string list option"
  parsedRequirements :: "requirement list option"

record violation =
  agreementId :: "string option"
  agreementName :: "string option"
  v_severity :: "string option"
  tagKey :: string
  expectedValue :: string
  actualValue :: "string option"
  v_reason :: "string option"

record validation_result =
  assetId :: "string option"
  assetName :: string
  r_fullName :: "string option"
  r_environmentId :: string
  compliant :: bool
  violations :: "violation list"

text \<open>Reading a property of \<open>undefined\<close> or \<open>null\<close> throws a \<open>TypeError\<close>.\<close>

datatype js_error = TypeError

text \<open>\<open>obj?.[key]\<close>: \<open>undefined\<close> when the object or the key is missing.\<close>

definition opt_lookup :: "(string \<rightharpoonup> string) option \<Rightarrow> string \<Rightarrow> string option" where
  "opt_lookup m k = (case m of None \<Rightarrow> None | Some f \<Rightarrow> f k)"

text \<open>Line 42: \<open>asset.properties?.[tagKey] || asset.tags?.[tagKey]\<close>.\<close>

definition assetTagValue :: "asset \<Rightarrow> string \<Rightarrow> string option" where
  "assetTagValue a k = js_or (opt_lookup (properties a) k) (opt_lookup (tags a) k)"

definition mkViolation ::
  "agreement \<Rightarrow> requirement \<Rightarrow> string \<Rightarrow> string \<Rightarrow> string option \<Rightarrow> violation" where
  "mkViolation ag req k e actual =
     \<lparr>agreementId = agreement_id ag, agreementName = agreement_name ag,
      v_severity = severity req, tagKey = k, expectedValue = e, actualValue = actual,
      v_reason = reason req\<rparr>"

text \<open>
  Lines 41-65, the body of the innermost \<open>forEach\<close>: one entry of \<open>requiredTags\<close> pushes
  at most one violation onto the array \<open>violations\<close>.
\<close>

definition checkTag ::
  "asset \<Rightarrow> agreement \<Rightarrow> requirement \<Rightarrow> violation list \<Rightarrow> string \<times> string \<Rightarrow> violation list" where
  "checkTag a ag req vs entry =
     (let key = fst entry; tagValue = snd entry;
          assetValue = assetTagValue a key
      in if \<not> truthy assetValue then vs @ [mkViolation ag req key tagValue None]
         else if assetValue \<noteq> Some tagValue
           then vs @ [mkViolation ag req key tagValue assetValue]
         else vs)"

text \<open>
  Lines 34-37. With \<open>scope\<close> missing the two comparisons are false and
  \<open>req.scope.includes\<close> throws.
\<close>

definition scopeMatches :: "asset \<Rightarrow> requirement \<Rightarrow> js_error + bool" where
  "scopeMatches a req =
     (case scope req of
        None \<Rightarrow> Inl TypeError
      | Some sc \<Rightarrow>
          Inr (sc = ''*.*.*'' \<or> sc = ''all'' \<or> includes_str sc (catalog_name a)
               \<or> includes_str sc (asset_name a)))"

text \<open>
  Lines 32-67, the body of the \<open>forEach\<close> over the requirements.
  \<open>Object.entries(undefined)\<close> throws.
\<close>

definition checkRequirement ::
  "asset \<Rightarrow> agreement \<Rightarrow> violation list \<Rightarrow> requirement \<Rightarrow> js_error + violation list" where
  "checkRequirement a ag vs req =
     (case scopeMatches a req of
        Inl err \<Rightarrow> Inl err
      | Inr matches \<Rightarrow>
          if matches then
            (case requiredTags req of
               None \<Rightarrow> Inl TypeError
             | Some entries \<Rightarrow> Inr (foldl (checkTag a ag req) vs entries))
          else Inr vs)"

text \<open>\<open>xs.forEach(f)\<close> where \<open>f\<close> updates a state and may throw: the first throw ends the loop.\<close>

fun forEachE :: "('s \<Rightarrow> 'a \<Rightarrow> js_error + 's) \<Rightarrow> 's \<Rightarrow> 'a list \<Rightarrow> js_error + 's" where
  "forEachE f s [] = Inr s"
| "forEachE f s (x # xs) = (case f s x of Inl err \<Rightarrow> Inl err | Inr s' \<Rightarrow> forEachE f s' xs)"

text \<open>\<open>xs.filter(p)\<close> where \<open>p\<close> may throw.\<close>

fun filterE :: "('a \<Rightarrow> js_error + bool) \<Rightarrow> 'a list \<Rightarrow> js_error + 'a list" where
  "filterE p [] = Inr []"
| "filterE p (x # xs) =
     (case p x of
        Inl err \<Rightarrow> Inl err
      | Inr b \<Rightarrow>
          (case filterE p xs of
             Inl err \<Rightarrow> Inl err
           | Inr ys \<Rightarrow> Inr (if b then x # ys else ys)))"

text \<open>Lines 25-28: no \<open>shares\<close>, an empty \<open>shares\<close>, or the asset's catalog among them.\<close>

definition agreementApplies :: "asset \<Rightarrow> agreement \<Rightarrow> bool" where
  "agreementApplies a ag =
     (case shares ag of
        None \<Rightarrow> True
      | Some ss \<Rightarrow> length ss = 0 \<or> catalog_name a \<in> set ss)"

text \<open>Lines 17-19: \<open>agreement.environments.includes(asset.environmentId)\<close>.\<close>

definition inEnvironment :: "asset \<Rightarrow> agreement \<Rightarrow> js_error + bool" where
  "inEnvironment a ag =
     (case environments ag of
        None \<Rightarrow> Inl TypeError
      | Some es \<Rightarrow> Inr (environmentId a \<in> set es))"

text \<open>Lines 22-68, the body of the \<open>forEach\<close> over the relevant agreements.\<close>

definition checkAgreement ::
  "asset \<Rightarrow> violation list \<Rightarrow> agreement \<Rightarrow> js_error + violation list" where
  "checkAgreement a vs ag =
     (if \<not> agreementApplies a ag then Inr vs
      else
        (case parsedRequirements ag of
           None \<Rightarrow> Inr vs
         | Some reqs \<Rightarrow> forEachE (checkRequirement a ag) vs reqs))"

definition validateAsset :: "asset \<Rightarrow> agreement list \<Rightarrow> js_error + validation_result" where
  "validateAsset a agreements =
     (case filterE (inEnvironment a) agreements of
        Inl err \<Rightarrow> Inl err
      | Inr relevantAgreements \<Rightarrow>
          (case forEachE (checkAgreement a) [] relevantAgreements of
             Inl err \<Rightarrow> Inl err
           | Inr vs \<Rightarrow>
               Inr \<lparr>assetId = js_or (asset_id a) (fullName a),
                    assetName = asset_name a,
                    r_fullName = fullName a,
                    r_environmentId = environmentId a,
                    compliant = (length vs = 0),
                    violations = vs\<rparr>))"

subsection \<open>The evaluator as a function of its input lists\<close>

definition entries_of :: "requirement \<Rightarrow> (string \<times> string) list" where
  "entries_of req = (case requiredTags req of None \<Rightarrow> [] | Some entries \<Rightarrow> entries)"

definition reqs_of :: "agreement \<Rightarrow> requirement list" where
  "reqs_of ag = (case parsedRequirements ag of None \<Rightarrow> [] | Some reqs \<Rightarrow> reqs)"

definition requirementViolations :: "asset \<Rightarrow> agreement \<Rightarrow> requirement \<Rightarrow> violation list" where
  "requirementViolations a ag req =
     (if scopeMatches a req = Inr True
      then concat (map (checkTag a ag req []) (entries_of req)) else [])"

definition agreementViolations :: "asset \<Rightarrow> agreement \<Rightarrow> violation list" where
  "agreementViolations a ag =
     (if agreementApplies a ag
      then concat (map (requirementViolations a ag) (reqs_of ag)) else [])"

text \<open>
  Well-formed agreements, as every producer in routes/agreements.js and
  config/databricks.js builds them: \<open>environments\<close> is an array, and every entry of
  \<open>parsedRequirements\<close> has a \<open>scope\<close> string and a \<open>requiredTags\<close> object.
\<close>

definition wellFormedRequirement :: "requirement \<Rightarrow> bool" where
  "wellFormedRequirement req = (scope req \<noteq> None \<and> requiredTags req \<noteq> None)"

definition wellFormedAgreement :: "agreement \<Rightarrow> bool" where
  "wellFormedAgreement ag =
     (environments ag \<noteq> None \<and> list_all wellFormedRequirement (reqs_of ag))"

subsection \<open>Example inputs\<close>

definition orders_asset :: "string \<Rightarrow> asset" where
  "orders_asset e =
     \<lparr>asset_id = None, asset_name = ''orders'', fullName = None, environmentId = e,
      catalog_name = ''sales'', schema_name = None, assetType = None, properties = None,
      tags = Some [''PII'' \<mapsto> ''true'']\<rparr>"

definition pii_retention_requirement :: requirement where
  "pii_retention_requirement =
     \<lparr>scope = Some ''all'',
      requiredTags = Some [(''PII'', ''true''), (''retention_years'', ''7'')],
      severity = Some ''critical'', reason = None\<rparr>"

definition sales_agreement :: "string list \<Rightarrow> string list \<Rightarrow> agreement" where
  "sales_agreement es ss =
     \<lparr>agreement_id = None, agreement_name = None, environments = Some es,
      shares = Some ss, parsedRequirements = Some [pii_retention_requirement]\<rparr>"

text \<open>An asset whose \<open>PII\<close> tag is present with the empty string as its value.\<close>

definition blank_pii_asset :: asset where
  "blank_pii_asset = (orders_asset ''prod'')\<lparr>tags := Some [''PII'' \<mapsto> []]\<rparr>"

definition pii_requirement :: requirement where
  "pii_requirement =
     \<lparr>scope = Some ''all'', requiredTags = Some [(''PII'', ''true'')],
      severity = Some ''critical'', reason = None\<rparr>"

definition pii_agreement :: agreement where
  "pii_agreement =
     \<lparr>agreement_id = None, agreement_name = None, environments = Some [''prod''],
      shares = Some [], parsedRequirements = Some [pii_requirement]\<rparr>"

text \<open>A requirement without \<open>requiredTags\<close>, in an agreement that applies everywhere.\<close>

definition untagged_requirement :: requirement where
  "untagged_requirement =
     \<lparr>scope = Some ''all'', requiredTags = None, severity = Some ''critical'',
      reason = None\<rparr>"

definition untagged_agreement :: agreement where
  "untagged_agreement =
     \<lparr>agreement_id = None, agreement_name = None, environments = Some [''prod''],
      shares = None, parsedRequirements = Some [untagged_requirement]\<rparr>"

text \<open>
  An asset with one tag that matches, one that differs and one that is missing, and two
  assets whose \<open>properties\<close> and \<open>tags\<close> disagree.
\<close>

definition classified_asset :: asset where
  "classified_asset =
     (orders_asset ''prod'')
       \<lparr>tags := Some [''PII'' \<mapsto> ''true'', ''classification'' \<mapsto> ''public'']\<rparr>"

definition classified_requirement :: requirement where
  "classified_requirement =
     \<lparr>scope = Some ''*.*.*'',
      requiredTags = Some [(''PII'', ''true''), (''classification'', ''restricted''),
                           (''retention_years'', ''7'')],
      severity = Some ''warning'', reason = Some ''policy''\<rparr>"

definition classified_agreement :: agreement where
  "classified_agreement =
     \<lparr>agreement_id = Some ''agreement-1'', agreement_name = Some ''Sales'',
      environments = Some [''prod''], shares = Some [''sales''],
      parsedRequirements = Some [classified_requirement]\<rparr>"

definition overridden_asset :: asset where
  "overridden_asset =
     (orders_asset ''prod'')
       \<lparr>properties := Some [''PII'' \<mapsto> ''true''], tags := Some [''PII'' \<mapsto> ''false'']\<rparr>"

definition masked_asset :: asset where
  "masked_asset =
     (orders_asset ''prod'')
       \<lparr>properties := Some [''PII'' \<mapsto> ''false''], tags := Some [''PII'' \<mapsto> ''true'']\<rparr>"

lemmas validateAsset_defs =
  validateAsset_def inEnvironment_def checkAgreement_def agreementApplies_def
  checkRequirement_def scopeMatches_def checkTag_def assetTagValue_def js_or_def truthy_def
  opt_lookup_def mkViolation_def

lemmas example_defs =
  orders_asset_def pii_retention_requirement_def sales_agreement_def blank_pii_asset_def
  pii_requirement_def pii_agreement_def untagged_requirement_def untagged_agreement_def
  classified_asset_def classified_requirement_def classified_agreement_def
  overridden_asset_def masked_asset_def

subsection \<open>Properties of the evaluator\<close>

lemma js_error_only: "(e :: js_error) = TypeError"
  by (cases e) simp

lemma checkTag_append: "checkTag a ag req vs entry = vs @ checkTag a ag req [] entry"
  by (simp add: checkTag_def Let_def)

lemma foldl_checkTag:
  "foldl (checkTag a ag req) vs entries = vs @ concat (map (checkTag a ag req []) entries)"
proof (induction entries arbitrary: vs)
  case Nil
  then show ?case by simp
next
  case (Cons entry entries)
  have "foldl (checkTag a ag req) vs (entry # entries)
      = checkTag a ag req vs entry @ concat (map (checkTag a ag req []) entries)"
    by (simp add: Cons.IH)
  also have "\<dots> = vs @ checkTag a ag req [] entry @ concat (map (checkTag a ag req []) entries)"
    using checkTag_append [of a ag req vs entry] by simp
  finally show ?case by simp
qed

lemma forEachE_appends:
  assumes step: "\<And>s x s'. f s x = Inr s' \<Longrightarrow> s' = s @ g x"
  shows "forEachE f s xs = Inr s' \<Longrightarrow> s' = s @ concat (map g xs)"
proof (induction xs arbitrary: s)
  case Nil
  then show ?case by simp
next
  case (Cons x xs)
  from Cons.prems obtain s1 where s1: "f s x = Inr s1" and rest: "forEachE f s1 xs = Inr s'"
    by (auto split: sum.splits)
  from step [OF s1] Cons.IH [OF rest] show ?case by simp
qed

lemma checkRequirement_appends:
  "checkRequirement a ag vs req = Inr vs' \<Longrightarrow> vs' = vs @ requirementViolations a ag req"
  by (auto simp: checkRequirement_def requirementViolations_def entries_of_def foldl_checkTag
      split: sum.splits if_splits option.splits)

lemma checkAgreement_appends:
  assumes "checkAgreement a vs ag = Inr vs'"
  shows "vs' = vs @ agreementViolations a ag"
proof (cases "agreementApplies a ag")
  case False
  with assms show ?thesis by (simp add: checkAgreement_def agreementViolations_def)
next
  case True
  show ?thesis
  proof (cases "parsedRequirements ag")
    case None
    with True assms show ?thesis
      by (simp add: checkAgreement_def agreementViolations_def reqs_of_def)
  next
    case (Some reqs)
    with True assms have "forEachE (checkRequirement a ag) vs reqs = Inr vs'"
      by (simp add: checkAgreement_def)
    from forEachE_appends [where g = "requirementViolations a ag", OF checkRequirement_appends this]
    show ?thesis using True Some by (simp add: agreementViolations_def reqs_of_def)
  qed
qed

lemma filterE_filter: "filterE p xs = Inr ys \<Longrightarrow> ys = filter (\<lambda>x. p x = Inr True) xs"
proof (induction xs arbitrary: ys)
  case Nil
  then show ?case by simp
next
  case (Cons x xs)
  then show ?case by (auto split: sum.splits if_splits)
qed

lemma validateAsset_violations:
  assumes "validateAsset a ags = Inr r"
  shows "violations r =
    concat (map (agreementViolations a) (filter (\<lambda>ag. inEnvironment a ag = Inr True) ags))"
proof -
  from assms obtain rel vs where rel: "filterE (inEnvironment a) ags = Inr rel"
    and vs: "forEachE (checkAgreement a) [] rel = Inr vs" and r: "violations r = vs"
    by (auto simp: validateAsset_def split: sum.splits)
  from forEachE_appends [where g = "agreementViolations a", OF checkAgreement_appends vs]
  have "vs = concat (map (agreementViolations a) rel)" by simp
  with filterE_filter [OF rel] r show ?thesis by simp
qed

lemma checkTag_member:
  assumes "v \<in> set (checkTag a ag req [] entry)"
  shows "tagKey v = fst entry \<and> expectedValue v = snd entry \<and>
     (if truthy (assetTagValue a (fst entry))
      then actualValue v = assetTagValue a (fst entry) \<and> assetTagValue a (fst entry) \<noteq> Some (snd entry)
      else actualValue v = None)"
  using assms by (auto simp: checkTag_def Let_def mkViolation_def split: if_splits)

lemma violation_origin:
  assumes "validateAsset a ags = Inr r" "v \<in> set (violations r)"
  shows "\<exists>ag req entry. v \<in> set (checkTag a ag req [] entry)"
  using assms
  by (auto simp: validateAsset_violations agreementViolations_def requirementViolations_def
      split: if_splits)

lemma violation_reached:
  assumes ok: "validateAsset a ags = Inr r"
    and ag: "ag \<in> set ags" "inEnvironment a ag = Inr True" "agreementApplies a ag"
    and req: "parsedRequirements ag = Some reqs" "req \<in> set reqs" "scopeMatches a req = Inr True"
    and entry: "requiredTags req = Some entries" "entry \<in> set entries"
  shows "set (checkTag a ag req [] entry) \<subseteq> set (violations r)"
proof -
  have "set (checkTag a ag req [] entry) \<subseteq> set (requirementViolations a ag req)"
    using req(3) entry by (auto simp: requirementViolations_def entries_of_def)
  also have "\<dots> \<subseteq> set (agreementViolations a ag)"
    using ag(3) req(1,2) by (auto simp: agreementViolations_def reqs_of_def)
  also have "\<dots> \<subseteq> set (violations r)"
    using ag(1,2) by (auto simp: validateAsset_violations [OF ok])
  finally show ?thesis .
qed

lemma forEachE_total:
  assumes "\<And>s x. x \<in> set xs \<Longrightarrow> \<exists>s'. f s x = Inr s'"
  shows "\<exists>s'. forEachE f s xs = Inr s'"
  using assms
proof (induction xs arbitrary: s)
  case Nil
  then show ?case by simp
next
  case (Cons x xs)
  from Cons.prems [of x s] obtain s1 where s1: "f s x = Inr s1" by auto
  from Cons.IH [of s1] Cons.prems obtain s' where "forEachE f s1 xs = Inr s'" by auto
  with s1 show ?case by simp
qed

lemma filterE_total:
  assumes "\<And>x. x \<in> set xs \<Longrightarrow> \<exists>b. p x = Inr b"
  shows "\<exists>ys. filterE p xs = Inr ys"
  using assms
proof (induction xs)
  case Nil
  then show ?case by simp
next
  case (Cons x xs)
  from Cons.prems [of x] obtain b where "p x = Inr b" by auto
  moreover from Cons.IH Cons.prems obtain ys where "filterE p xs = Inr ys" by auto
  ultimately show ?case by simp
qed

lemma checkRequirement_total:
  "wellFormedRequirement req \<Longrightarrow> \<exists>vs'. checkRequirement a ag vs req = Inr vs'"
  by (auto simp: wellFormedRequirement_def checkRequirement_def scopeMatches_def)

lemma checkAgreement_total:
  assumes "wellFormedAgreement ag"
  shows "\<exists>vs'. checkAgreement a vs ag = Inr vs'"
proof (cases "parsedRequirements ag")
  case None
  then show ?thesis by (simp add: checkAgreement_def)
next
  case (Some reqs)
  with assms have "\<And>req. req \<in> set reqs \<Longrightarrow> wellFormedRequirement req"
    by (simp add: wellFormedAgreement_def reqs_of_def list_all_iff)
  then have "\<exists>vs'. forEachE (checkRequirement a ag) vs reqs = Inr vs'"
    by (intro forEachE_total checkRequirement_total)
  with Some show ?thesis by (auto simp: checkAgreement_def)
qed

lemma validateAsset_total:
  assumes "list_all wellFormedAgreement ags"
  shows "\<exists>r. validateAsset a ags = Inr r"
proof -
  have wf: "\<And>ag. ag \<in> set ags \<Longrightarrow> wellFormedAgreement ag"
    using assms by (simp add: list_all_iff)
  then have "\<And>ag. ag \<in> set ags \<Longrightarrow> \<exists>b. inEnvironment a ag = Inr b"
    by (auto simp: wellFormedAgreement_def inEnvironment_def split: option.splits)
  from filterE_total [of ags "inEnvironment a", OF this]
  obtain rel where rel: "filterE (inEnvironment a) ags = Inr rel" by blast
  from filterE_filter [OF rel] have "set rel \<subseteq> set ags" by auto
  with wf have "\<And>vs ag. ag \<in> set rel \<Longrightarrow> \<exists>vs'. checkAgreement a vs ag = Inr vs'"
    by (auto intro: checkAgreement_total)
  from forEachE_total [of rel "checkAgreement a" "[]", OF this]
  obtain vs where "forEachE (checkAgreement a) [] rel = Inr vs" by blast
  with rel show ?thesis by (simp add: validateAsset_def)
qed

lemma forEachE_throws:
  assumes "x \<in> set xs" "\<And>s. f s x = Inl TypeError"
  shows "forEachE f s xs = Inl TypeError"
  using assms(1)
proof (induction xs arbitrary: s)
  case Nil
  then show ?case by simp
next
  case (Cons y ys)
  show ?case
  proof (cases "f s y")
    case (Inl err)
    then show ?thesis by (simp add: js_error_only [of err])
  next
    case (Inr s1)
    with Cons.prems assms(2) [of s] have "x \<in> set ys" by auto
    from Cons.IH [OF this] Inr show ?thesis by simp
  qed
qed

lemma validateAsset_throws:
  assumes ag: "ag \<in> set ags" "inEnvironment a ag = Inr True" "agreementApplies a ag"
    and req: "parsedRequirements ag = Some reqs" "req \<in> set reqs" "scopeMatches a req = Inr True"
    and missing: "requiredTags req = None"
  shows "validateAsset a ags = Inl TypeError"
proof (cases "filterE (inEnvironment a) ags")
  case (Inl err)
  then show ?thesis by (simp add: validateAsset_def js_error_only [of err])
next
  case (Inr rel)
  from filterE_filter [OF Inr] ag(1,2) have mem: "ag \<in> set rel" by simp
  have "\<And>vs. checkRequirement a ag vs req = Inl TypeError"
    using req(3) missing by (simp add: checkRequirement_def)
  from forEachE_throws [where f = "checkRequirement a ag", OF req(2) this]
  have "\<And>vs. checkAgreement a vs ag = Inl TypeError"
    using ag(3) req(1) by (simp add: checkAgreement_def)
  from forEachE_throws [where f = "checkAgreement a", OF mem this] Inr show ?thesis by (simp add: validateAsset_def)
qed

lemma validateAsset_cong:
  assumes tv: "\<And>k. assetTagValue a' k = assetTagValue a k"
    and same: "asset_id a' = asset_id a" "asset_name a' = asset_name a" "fullName a' = fullName a"
      "environmentId a' = environmentId a" "catalog_name a' = catalog_name a"
  shows "validateAsset a' ags = validateAsset a ags"
proof -
  have ct: "checkTag a' = checkTag a"
    by (intro ext) (simp add: checkTag_def tv)
  have sm: "scopeMatches a' = scopeMatches a"
    by (intro ext) (simp add: scopeMatches_def same split: option.splits)
  have cr: "checkRequirement a' = checkRequirement a"
    by (intro ext) (simp add: checkRequirement_def ct sm split: sum.splits option.splits)
  have ca: "checkAgreement a' = checkAgreement a"
    by (intro ext) (simp add: checkAgreement_def cr agreementApplies_def same split: option.splits)
  have ie: "inEnvironment a' = inEnvironment a"
    by (intro ext) (simp add: inEnvironment_def same split: option.splits)
  show ?thesis by (simp add: validateAsset_def ca ie same split: sum.splits)
qed

lemma classified_result:
  "validateAsset classified_asset [classified_agreement] =
     Inr \<lparr>assetId = None, assetName = ''orders'', r_fullName = None,
          r_environmentId = ''prod'', compliant = False,
          violations =
            [mkViolation classified_agreement classified_requirement
               ''classification'' ''restricted'' (Some ''public''),
             mkViolation classified_agreement classified_requirement
               ''retention_years'' ''7'' None]\<rparr>"
  by (simp add: validateAsset_defs example_defs)

lemma validateAsset_compliant:
  "validateAsset a ags = Inr r \<Longrightarrow> compliant r = (violations r = [])"
  by (auto simp: validateAsset_def split: sum.splits)

lemma checkTag_verdict:
  "checkTag a ag req [] (k, e) =
     (if \<not> truthy (assetTagValue a k) then [mkViolation ag req k e None]
      else if assetTagValue a k \<noteq> Some e then [mkViolation ag req k e (assetTagValue a k)]
      else [])"
  by (simp add: checkTag_def Let_def)

lemma checkTag_none_iff:
  "checkTag a ag req [] entry = [] \<longleftrightarrow>
     assetTagValue a (fst entry) = Some (snd entry) \<and> snd entry \<noteq> []"
  by (cases entry) (auto simp: checkTag_verdict truthy_def split: option.splits)

lemma requirementViolations_none_iff:
  "requirementViolations a ag req = [] \<longleftrightarrow>
     (scopeMatches a req = Inr True \<longrightarrow>
        (\<forall>entry \<in> set (entries_of req). checkTag a ag req [] entry = []))"
  by (simp add: requirementViolations_def)

lemma agreementViolations_none_iff:
  "agreementViolations a ag = [] \<longleftrightarrow>
     (agreementApplies a ag \<longrightarrow>
        (\<forall>req \<in> set (reqs_of ag). requirementViolations a ag req = []))"
  by (simp add: agreementViolations_def)

lemma compliant_iff:
  assumes ok: "validateAsset a ags = Inr r"
  shows "compliant r \<longleftrightarrow>
     (\<forall>ag \<in> set ags. inEnvironment a ag = Inr True \<and> agreementApplies a ag \<longrightarrow>
        (\<forall>req \<in> set (reqs_of ag). scopeMatches a req = Inr True \<longrightarrow>
           (\<forall>entry \<in> set (entries_of req).
              assetTagValue a (fst entry) = Some (snd entry) \<and> snd entry \<noteq> [])))"
proof -
  have "compliant r \<longleftrightarrow>
      (\<forall>ag \<in> set ags. inEnvironment a ag = Inr True \<longrightarrow> agreementViolations a ag = [])"
    by (auto simp: validateAsset_compliant [OF ok] validateAsset_violations [OF ok])
  then show ?thesis
    by (auto simp: agreementViolations_none_iff requirementViolations_none_iff
        checkTag_none_iff)
qed

subsection \<open>The claims about the evaluator\<close>

text \<open>
  Claim C1. For the asset \<open>{catalogName: "sales", name: "orders", tags: {PII: "true"}}\<close> in
  an environment \<open>e\<close> that the agreement covers, and the single agreement with shares
  \<open>["sales"]\<close> and one requirement of scope \<open>"all"\<close>, severity \<open>"critical"\<close> and required
  tags \<open>{PII: "true", retention_years: "7"}\<close>, \<open>validateAsset\<close> returns exactly one
  violation, for \<open>retention_years\<close>, expected \<open>"7"\<close>, actual \<open>null\<close>, severity
  \<open>"critical"\<close>, and \<open>compliant = false\<close>. With the shares replaced by \<open>["marketing"]\<close>
  it returns no violation and \<open>compliant = true\<close>.
\<close>

theorem validateAsset_orders_example:
  assumes "e \<in> set es"
  shows "validateAsset (orders_asset e) [sales_agreement es [''sales'']] =
      Inr \<lparr>assetId = None, assetName = ''orders'', r_fullName = None, r_environmentId = e,
           compliant = False,
           violations =
             [\<lparr>agreementId = None, agreementName = None, v_severity = Some ''critical'',
               tagKey = ''retention_years'', expectedValue = ''7'', actualValue = None,
               v_reason = None\<rparr>]\<rparr>
    \<and> validateAsset (orders_asset e) [sales_agreement es [''marketing'']] =
      Inr \<lparr>assetId = None, assetName = ''orders'', r_fullName = None, r_environmentId = e,
           compliant = True, violations = []\<rparr>"
  using assms by (simp add: validateAsset_defs example_defs)

text \<open>The example of claim C1 in the environment \<open>prod\<close>, one of two the agreement covers.\<close>

theorem validateAsset_orders_example_witness:
  "validateAsset (orders_asset ''prod'') [sales_agreement [''prod'', ''dev''] [''sales'']] =
      Inr \<lparr>assetId = None, assetName = ''orders'', r_fullName = None,
           r_environmentId = ''prod'', compliant = False,
           violations =
             [\<lparr>agreementId = None, agreementName = None, v_severity = Some ''critical'',
               tagKey = ''retention_years'', expectedValue = ''7'', actualValue = None,
               v_reason = None\<rparr>]\<rparr>
    \<and> validateAsset (orders_asset ''prod'') [sales_agreement [''prod'', ''dev''] [''marketing'']] =
      Inr \<lparr>assetId = None, assetName = ''orders'', r_fullName = None,
           r_environmentId = ''prod'', compliant = True, violations = []\<rparr>"
proof -
  have covered: "''prod'' \<in> set [''prod'', ''dev'']" by simp
  show ?thesis by (rule validateAsset_orders_example [OF covered])
qed

text \<open>
  Claim C5 as stated fails where a tag is present with the empty string as its value: the
  tag differs from the expected \<open>"true"\<close>, yet the violation carries \<open>actualValue = null\<close>,
  not the observed value. The test on line 44 is \<open>!assetTagValue\<close>, which is also true of
  the empty string.
\<close>

theorem blank_tag_reported_missing:
  "opt_lookup (tags blank_pii_asset) ''PII'' = Some []
   \<and> [] \<noteq> ''true''
   \<and> validateAsset blank_pii_asset [pii_agreement] =
       Inr \<lparr>assetId = None, assetName = ''orders'', r_fullName = None,
            r_environmentId = ''prod'', compliant = False,
            violations =
              [\<lparr>agreementId = None, agreementName = None, v_severity = Some ''critical'',
                tagKey = ''PII'', expectedValue = ''true'', actualValue = None,
                v_reason = None\<rparr>]\<rparr>"
  by (simp add: validateAsset_defs example_defs)

text \<open>
  Claim C5, amended. Let \<open>validateAsset\<close> return a result for an asset, let an agreement
  of the list cover the asset's environment and apply to its catalog, let one of its
  requirements match in scope, and let \<open>(k, e)\<close> be an entry of its required tags. The
  value checked is \<open>properties[k] || tags[k]\<close>. If that value is falsy (absent, or the
  empty string), the result holds the violation for \<open>k\<close> with \<open>actualValue = null\<close>. If it
  is a non-empty string other than \<open>e\<close>, the result holds the violation for \<open>k\<close> whose
  \<open>actualValue\<close> is that string (not \<open>null\<close>). If it is \<open>e\<close>, and \<open>e\<close> is not empty, the
  result holds no violation for key \<open>k\<close> with expected value \<open>e\<close>.
\<close>

theorem validateAsset_tag_cases:
  assumes ok: "validateAsset a ags = Inr r"
    and ag: "ag \<in> set ags" "inEnvironment a ag = Inr True" "agreementApplies a ag"
    and req: "parsedRequirements ag = Some reqs" "req \<in> set reqs" "scopeMatches a req = Inr True"
    and entry: "requiredTags req = Some entries" "(k, e) \<in> set entries"
  shows "(\<not> truthy (assetTagValue a k) \<longrightarrow> mkViolation ag req k e None \<in> set (violations r))
    \<and> (truthy (assetTagValue a k) \<and> assetTagValue a k \<noteq> Some e \<longrightarrow>
          mkViolation ag req k e (assetTagValue a k) \<in> set (violations r)
          \<and> assetTagValue a k \<noteq> None)
    \<and> (truthy (assetTagValue a k) \<and> assetTagValue a k = Some e \<longrightarrow>
          (\<forall>v \<in> set (violations r). \<not> (tagKey v = k \<and> expectedValue v = e)))"
proof (intro conjI impI)
  assume "\<not> truthy (assetTagValue a k)"
  then have "mkViolation ag req k e None \<in> set (checkTag a ag req [] (k, e))"
    by (simp add: checkTag_def)
  with violation_reached [OF ok ag req entry] show "mkViolation ag req k e None \<in> set (violations r)"
    by blast
next
  assume "truthy (assetTagValue a k) \<and> assetTagValue a k \<noteq> Some e"
  then have "mkViolation ag req k e (assetTagValue a k) \<in> set (checkTag a ag req [] (k, e))"
    by (simp add: checkTag_def)
  with violation_reached [OF ok ag req entry]
  show "mkViolation ag req k e (assetTagValue a k) \<in> set (violations r)"
    by blast
next
  assume "truthy (assetTagValue a k) \<and> assetTagValue a k \<noteq> Some e"
  then show "assetTagValue a k \<noteq> None" by (auto simp: truthy_def split: option.splits)
next
  assume eq: "truthy (assetTagValue a k) \<and> assetTagValue a k = Some e"
  show "\<forall>v \<in> set (violations r). \<not> (tagKey v = k \<and> expectedValue v = e)"
  proof (intro ballI notI)
    fix v assume v: "v \<in> set (violations r)" and ke: "tagKey v = k \<and> expectedValue v = e"
    from violation_origin [OF ok v] obtain ag' req' entry'
      where "v \<in> set (checkTag a ag' req' [] entry')" by blast
    from checkTag_member [OF this] ke eq show False by (auto split: if_splits)
  qed
qed

text \<open>
  The three cases of claim C5 on one asset: \<open>retention_years\<close> is missing,
  \<open>classification\<close> is \<open>"public"\<close> where \<open>"restricted"\<close> is required, and \<open>PII\<close> is as
  required.
\<close>

theorem validateAsset_tag_cases_witness:
  "mkViolation classified_agreement classified_requirement ''retention_years'' ''7'' None
     \<in> set (violations (projr (validateAsset classified_asset [classified_agreement])))
   \<and> mkViolation classified_agreement classified_requirement ''classification'' ''restricted''
       (Some ''public'')
     \<in> set (violations (projr (validateAsset classified_asset [classified_agreement])))
   \<and> list_all (\<lambda>v. \<not> (tagKey v = ''PII'' \<and> expectedValue v = ''true''))
       (violations (projr (validateAsset classified_asset [classified_agreement])))"
proof -
  let ?r = "projr (validateAsset classified_asset [classified_agreement])"
  have ok: "validateAsset classified_asset [classified_agreement] = Inr ?r"
    by (simp add: classified_result)
  have ag: "classified_agreement \<in> set [classified_agreement]"
    "inEnvironment classified_asset classified_agreement = Inr True"
    "agreementApplies classified_asset classified_agreement"
    by (simp_all add: validateAsset_defs example_defs)
  have req: "parsedRequirements classified_agreement = Some [classified_requirement]"
    "classified_requirement \<in> set [classified_requirement]"
    "scopeMatches classified_asset classified_requirement = Inr True"
    by (simp_all add: validateAsset_defs example_defs)
  have entries: "requiredTags classified_requirement =
      Some [(''PII'', ''true''), (''classification'', ''restricted''), (''retention_years'', ''7'')]"
    by (simp add: example_defs)
  have vals: "assetTagValue classified_asset ''retention_years'' = None"
    "assetTagValue classified_asset ''classification'' = Some ''public''"
    "assetTagValue classified_asset ''PII'' = Some ''true''"
    by (simp_all add: validateAsset_defs example_defs)
  from validateAsset_tag_cases [OF ok ag req entries, of "''retention_years''" "''7''"]
  have missing: "mkViolation classified_agreement classified_requirement ''retention_years'' ''7'' None
      \<in> set (violations ?r)"
    by (simp add: vals truthy_def)
  from validateAsset_tag_cases [OF ok ag req entries, of "''classification''" "''restricted''"]
  have incorrect: "mkViolation classified_agreement classified_requirement ''classification''
      ''restricted'' (Some ''public'') \<in> set (violations ?r)"
    by (simp add: vals truthy_def)
  from validateAsset_tag_cases [OF ok ag req entries, of "''PII''" "''true''"]
  have equal: "\<forall>v \<in> set (violations ?r). \<not> (tagKey v = ''PII'' \<and> expectedValue v = ''true'')"
    by (simp add: vals truthy_def)
  from missing incorrect equal show ?thesis by (simp add: list_all_iff)
qed

text \<open>
  Claim C6 as stated fails: an agreement that applies to the asset, with a requirement
  whose scope matches and whose \<open>requiredTags\<close> is missing, makes \<open>validateAsset\<close> throw
  (\<open>Object.entries(undefined)\<close> on line 41) instead of returning no violation.
\<close>

theorem missing_requiredTags_throws:
  "validateAsset (orders_asset ''prod'') [untagged_agreement] = Inl TypeError"
  by (simp add: validateAsset_defs example_defs)

text \<open>
  Claim C6, amended. \<open>validateAsset\<close> returns a result for every asset and every list of
  well-formed agreements (each with its \<open>environments\<close>, each requirement with a \<open>scope\<close>
  and its \<open>requiredTags\<close>). A requirement without \<open>requiredTags\<close> is not treated as
  "no requirements": whenever its agreement covers the asset's environment and applies to
  its catalog and the requirement's scope matches, \<open>validateAsset\<close> throws a \<open>TypeError\<close>.
\<close>

theorem validateAsset_total_or_throws:
  "(list_all wellFormedAgreement ags \<longrightarrow> (\<exists>r. validateAsset a ags = Inr r))
   \<and> (ag \<in> set ags \<and> inEnvironment a ag = Inr True \<and> agreementApplies a ag
       \<and> parsedRequirements ag = Some reqs \<and> req \<in> set reqs
       \<and> scopeMatches a req = Inr True \<and> requiredTags req = None
      \<longrightarrow> validateAsset a ags = Inl TypeError)"
  using validateAsset_total [of ags a] validateAsset_throws [of ag ags a reqs req] by blast

text \<open>
  Claim C6 on two lists of agreements: a well-formed one, and one whose second agreement
  has a requirement without \<open>requiredTags\<close>.
\<close>

theorem validateAsset_total_or_throws_witness:
  "(\<exists>r. validateAsset classified_asset [classified_agreement, pii_agreement] = Inr r)
   \<and> validateAsset classified_asset [classified_agreement, untagged_agreement] = Inl TypeError"
proof -
  have wf: "list_all wellFormedAgreement [classified_agreement, pii_agreement]"
    by (simp add: wellFormedAgreement_def wellFormedRequirement_def reqs_of_def example_defs)
  have reached: "untagged_agreement \<in> set [classified_agreement, untagged_agreement]
    \<and> inEnvironment classified_asset untagged_agreement = Inr True
    \<and> agreementApplies classified_asset untagged_agreement
    \<and> parsedRequirements untagged_agreement = Some [untagged_requirement]
    \<and> untagged_requirement \<in> set [untagged_requirement]
    \<and> scopeMatches classified_asset untagged_requirement = Inr True
    \<and> requiredTags untagged_requirement = None"
    by (simp add: validateAsset_defs example_defs)
  from validateAsset_total_or_throws
    [of "[classified_agreement, pii_agreement]" classified_asset]
    wf
  have total: "\<exists>r. validateAsset classified_asset [classified_agreement, pii_agreement] = Inr r"
    by blast
  from validateAsset_total_or_throws
    [where ag = untagged_agreement and ags = "[classified_agreement, untagged_agreement]"
      and a = classified_asset and reqs = "[untagged_requirement]"
      and req = untagged_requirement]
    reached
  have "validateAsset classified_asset [classified_agreement, untagged_agreement] = Inl TypeError"
    by blast
  with total show ?thesis by blast
qed

text \<open>
  Claim C10. For an asset with both a \<open>properties\<close> map \<open>p\<close> and a \<open>tags\<close> map \<open>t\<close>, the
  value checked for a key \<open>k\<close> is \<open>p k\<close> whenever that is truthy, and \<open>t k\<close> only when
  \<open>p\<close> lacks \<open>k\<close> or holds the empty string for it. So replacing the tags by any map \<open>t'\<close>
  that differs from \<open>t\<close> only at keys where \<open>p\<close> is truthy leaves the result of
  \<open>validateAsset\<close> unchanged.

  The verdict follows the value checked. For a required entry \<open>(k, e)\<close> of a requirement
  that is reached (its agreement covers the asset's environment and applies to its
  catalog, its scope matches): a truthy \<open>p k\<close> other than \<open>e\<close> puts the violation with
  \<open>actualValue = p k\<close> into the result, which is then not compliant, whatever \<open>t k\<close> is
  (also when \<open>t k\<close> is \<open>e\<close>); a truthy \<open>p k\<close> equal to \<open>e\<close> leaves the result without
  any violation for \<open>k\<close> and \<open>e\<close>, whatever \<open>t k\<close> is; and only when \<open>p k\<close> is falsy does
  \<open>t k\<close> decide in the same way. The result is compliant exactly when, for every entry
  \<open>(k, e)\<close> of every reached requirement, \<open>e\<close> is not empty and is the value of \<open>p k\<close> if
  that is truthy, of \<open>t k\<close> otherwise.
\<close>

theorem properties_take_precedence:
  assumes "properties a = Some p" "tags a = Some t"
  shows "(truthy (p k) \<longrightarrow> assetTagValue a k = p k)
     \<and> (\<not> truthy (p k) \<longrightarrow> assetTagValue a k = t k)
     \<and> ((\<forall>k'. truthy (p k') \<or> t' k' = t k') \<longrightarrow>
          validateAsset (a\<lparr>tags := Some t'\<rparr>) ags = validateAsset a ags)
     \<and> (validateAsset a ags = Inr r \<and> ag \<in> set ags \<and> inEnvironment a ag = Inr True
         \<and> agreementApplies a ag \<and> parsedRequirements ag = Some reqs \<and> req \<in> set reqs
         \<and> scopeMatches a req = Inr True \<and> requiredTags req = Some entries
         \<and> (k, e) \<in> set entries \<longrightarrow>
          (truthy (p k) \<and> p k \<noteq> Some e \<longrightarrow>
             mkViolation ag req k e (p k) \<in> set (violations r) \<and> \<not> compliant r)
          \<and> (truthy (p k) \<and> p k = Some e \<longrightarrow>
               (\<forall>v \<in> set (violations r). \<not> (tagKey v = k \<and> expectedValue v = e)))
          \<and> (\<not> truthy (p k) \<and> \<not> truthy (t k) \<longrightarrow>
               mkViolation ag req k e None \<in> set (violations r) \<and> \<not> compliant r)
          \<and> (\<not> truthy (p k) \<and> truthy (t k) \<and> t k \<noteq> Some e \<longrightarrow>
               mkViolation ag req k e (t k) \<in> set (violations r) \<and> \<not> compliant r)
          \<and> (\<not> truthy (p k) \<and> truthy (t k) \<and> t k = Some e \<longrightarrow>
               (\<forall>v \<in> set (violations r). \<not> (tagKey v = k \<and> expectedValue v = e))))
     \<and> (validateAsset a ags = Inr r \<longrightarrow>
          (compliant r \<longleftrightarrow>
             (\<forall>ag \<in> set ags. inEnvironment a ag = Inr True \<and> agreementApplies a ag \<longrightarrow>
                (\<forall>req \<in> set (reqs_of ag). scopeMatches a req = Inr True \<longrightarrow>
                   (\<forall>entry \<in> set (entries_of req).
                      (if truthy (p (fst entry)) then p (fst entry) else t (fst entry))
                        = Some (snd entry) \<and> snd entry \<noteq> [])))))"
proof -
  have looked: "assetTagValue a k' = (if truthy (p k') then p k' else t k')" for k'
    using assms by (simp add: assetTagValue_def js_or_def opt_lookup_def)
  have c1: "truthy (p k) \<longrightarrow> assetTagValue a k = p k"
    and c2: "\<not> truthy (p k) \<longrightarrow> assetTagValue a k = t k"
    by (simp_all add: looked)
  have c3: "(\<forall>k'. truthy (p k') \<or> t' k' = t k') \<longrightarrow>
          validateAsset (a\<lparr>tags := Some t'\<rparr>) ags = validateAsset a ags"
  proof
    assume agree: "\<forall>k'. truthy (p k') \<or> t' k' = t k'"
    show "validateAsset (a\<lparr>tags := Some t'\<rparr>) ags = validateAsset a ags"
    proof (rule validateAsset_cong)
      fix k'
      from agree have "truthy (p k') \<or> t' k' = t k'" by blast
      then show "assetTagValue (a\<lparr>tags := Some t'\<rparr>) k' = assetTagValue a k'"
        using assms by (auto simp: assetTagValue_def js_or_def opt_lookup_def)
    qed simp_all
  qed
  have c4: "validateAsset a ags = Inr r \<and> ag \<in> set ags \<and> inEnvironment a ag = Inr True
         \<and> agreementApplies a ag \<and> parsedRequirements ag = Some reqs \<and> req \<in> set reqs
         \<and> scopeMatches a req = Inr True \<and> requiredTags req = Some entries
         \<and> (k, e) \<in> set entries \<longrightarrow>
          (truthy (p k) \<and> p k \<noteq> Some e \<longrightarrow>
             mkViolation ag req k e (p k) \<in> set (violations r) \<and> \<not> compliant r)
          \<and> (truthy (p k) \<and> p k = Some e \<longrightarrow>
               (\<forall>v \<in> set (violations r). \<not> (tagKey v = k \<and> expectedValue v = e)))
          \<and> (\<not> truthy (p k) \<and> \<not> truthy (t k) \<longrightarrow>
               mkViolation ag req k e None \<in> set (violations r) \<and> \<not> compliant r)
          \<and> (\<not> truthy (p k) \<and> truthy (t k) \<and> t k \<noteq> Some e \<longrightarrow>
               mkViolation ag req k e (t k) \<in> set (violations r) \<and> \<not> compliant r)
          \<and> (\<not> truthy (p k) \<and> truthy (t k) \<and> t k = Some e \<longrightarrow>
               (\<forall>v \<in> set (violations r). \<not> (tagKey v = k \<and> expectedValue v = e)))"
  proof (intro impI)
    assume h: "validateAsset a ags = Inr r \<and> ag \<in> set ags \<and> inEnvironment a ag = Inr True
         \<and> agreementApplies a ag \<and> parsedRequirements ag = Some reqs \<and> req \<in> set reqs
         \<and> scopeMatches a req = Inr True \<and> requiredTags req = Some entries
         \<and> (k, e) \<in> set entries"
    then have ok: "validateAsset a ags = Inr r" by simp
    from h have emitted: "set (checkTag a ag req [] (k, e)) \<subseteq> set (violations r)"
      by (intro violation_reached [of a ags r ag reqs req entries]) simp_all
    have none: "\<forall>v \<in> set (violations r). \<not> (tagKey v = k \<and> expectedValue v = e)"
      if eq: "assetTagValue a k = Some e" "truthy (assetTagValue a k)"
    proof (intro ballI notI)
      fix v assume v: "v \<in> set (violations r)" and ke: "tagKey v = k \<and> expectedValue v = e"
      from violation_origin [OF ok v] obtain ag' req' entry'
        where "v \<in> set (checkTag a ag' req' [] entry')" by blast
      from checkTag_member [OF this] ke eq show False by (auto split: if_splits)
    qed
    have nc: "\<not> compliant r" if "x \<in> set (violations r)" for x
      using that validateAsset_compliant [OF ok] by auto
    show "(truthy (p k) \<and> p k \<noteq> Some e \<longrightarrow>
             mkViolation ag req k e (p k) \<in> set (violations r) \<and> \<not> compliant r)
          \<and> (truthy (p k) \<and> p k = Some e \<longrightarrow>
               (\<forall>v \<in> set (violations r). \<not> (tagKey v = k \<and> expectedValue v = e)))
          \<and> (\<not> truthy (p k) \<and> \<not> truthy (t k) \<longrightarrow>
               mkViolation ag req k e None \<in> set (violations r) \<and> \<not> compliant r)
          \<and> (\<not> truthy (p k) \<and> truthy (t k) \<and> t k \<noteq> Some e \<longrightarrow>
               mkViolation ag req k e (t k) \<in> set (violations r) \<and> \<not> compliant r)
          \<and> (\<not> truthy (p k) \<and> truthy (t k) \<and> t k = Some e \<longrightarrow>
               (\<forall>v \<in> set (violations r). \<not> (tagKey v = k \<and> expectedValue v = e)))"
    proof (intro conjI impI)
      assume "truthy (p k) \<and> p k \<noteq> Some e"
      then have "mkViolation ag req k e (p k) \<in> set (checkTag a ag req [] (k, e))"
        by (simp add: checkTag_verdict looked)
      with emitted show "mkViolation ag req k e (p k) \<in> set (violations r)" by blast
      then show "\<not> compliant r" by (rule nc)
    next
      assume "truthy (p k) \<and> p k = Some e"
      then show "\<forall>v \<in> set (violations r). \<not> (tagKey v = k \<and> expectedValue v = e)"
        by (intro none) (auto simp: looked)
    next
      assume "\<not> truthy (p k) \<and> \<not> truthy (t k)"
      then have "mkViolation ag req k e None \<in> set (checkTag a ag req [] (k, e))"
        by (simp add: checkTag_verdict looked)
      with emitted show "mkViolation ag req k e None \<in> set (violations r)" by blast
      then show "\<not> compliant r" by (rule nc)
    next
      assume "\<not> truthy (p k) \<and> truthy (t k) \<and> t k \<noteq> Some e"
      then have "mkViolation ag req k e (t k) \<in> set (checkTag a ag req [] (k, e))"
        by (simp add: checkTag_verdict looked)
      with emitted show "mkViolation ag req k e (t k) \<in> set (violations r)" by blast
      then show "\<not> compliant r" by (rule nc)
    next
      assume "\<not> truthy (p k) \<and> truthy (t k) \<and> t k = Some e"
      then show "\<forall>v \<in> set (violations r). \<not> (tagKey v = k \<and> expectedValue v = e)"
        by (intro none) (auto simp: looked)
    qed
  qed
  have c5: "validateAsset a ags = Inr r \<longrightarrow>
          (compliant r \<longleftrightarrow>
             (\<forall>ag \<in> set ags. inEnvironment a ag = Inr True \<and> agreementApplies a ag \<longrightarrow>
                (\<forall>req \<in> set (reqs_of ag). scopeMatches a req = Inr True \<longrightarrow>
                   (\<forall>entry \<in> set (entries_of req).
                      (if truthy (p (fst entry)) then p (fst entry) else t (fst entry))
                        = Some (snd entry) \<and> snd entry \<noteq> []))))"
    using compliant_iff [of a ags r] by (simp add: looked)
  from c1 c2 c3 c4 c5 show ?thesis by blast
qed

text \<open>
  Claim C10 on two assets checked against the requirement \<open>PII = "true"\<close>. With
  \<open>properties = {PII: "true"}\<close> and \<open>tags = {PII: "false"}\<close> the value checked is
  \<open>"true"\<close>, the result is that of the same asset with \<open>tags = {PII: "true"}\<close>, and it is
  compliant. With \<open>properties = {PII: "false"}\<close> and \<open>tags = {PII: "true"}\<close> the result
  holds the violation with \<open>actualValue = "false"\<close> and is not compliant.
\<close>

theorem properties_take_precedence_witness:
  "assetTagValue overridden_asset ''PII'' = Some ''true''
   \<and> assetTagValue overridden_asset ''owner'' = None
   \<and> validateAsset (overridden_asset\<lparr>tags := Some [''PII'' \<mapsto> ''true'']\<rparr>) [pii_agreement]
       = validateAsset overridden_asset [pii_agreement]
   \<and> compliant (projr (validateAsset overridden_asset [pii_agreement]))
   \<and> mkViolation pii_agreement pii_requirement ''PII'' ''true'' (Some ''false'')
       \<in> set (violations (projr (validateAsset masked_asset [pii_agreement])))
   \<and> \<not> compliant (projr (validateAsset masked_asset [pii_agreement]))"
proof -
  have p: "properties overridden_asset = Some [''PII'' \<mapsto> ''true'']"
    and t: "tags overridden_asset = Some [''PII'' \<mapsto> ''false'']"
    by (simp_all add: example_defs)
  have agree: "\<forall>k'. truthy ([''PII'' \<mapsto> ''true''] k') \<or> [''PII'' \<mapsto> ''true''] k' = [''PII'' \<mapsto> ''false''] k'"
    by (simp add: truthy_def)
  from properties_take_precedence [OF p t, of "''PII''"]
  have a: "assetTagValue overridden_asset ''PII'' = Some ''true''" by (simp add: truthy_def)
  from properties_take_precedence [OF p t, of "''owner''"]
  have b: "assetTagValue overridden_asset ''owner'' = None" by (simp add: truthy_def)
  from properties_take_precedence [OF p t, of _ "[''PII'' \<mapsto> ''true'']" "[pii_agreement]"] agree
  have c: "validateAsset (overridden_asset\<lparr>tags := Some [''PII'' \<mapsto> ''true'']\<rparr>) [pii_agreement]
       = validateAsset overridden_asset [pii_agreement]" by blast
  let ?r = "projr (validateAsset overridden_asset [pii_agreement])"
  have ok: "validateAsset overridden_asset [pii_agreement] = Inr ?r"
    by (simp add: validateAsset_defs example_defs)
  have every: "\<forall>ag \<in> set [pii_agreement].
      inEnvironment overridden_asset ag = Inr True \<and> agreementApplies overridden_asset ag \<longrightarrow>
        (\<forall>req \<in> set (reqs_of ag). scopeMatches overridden_asset req = Inr True \<longrightarrow>
           (\<forall>entry \<in> set (entries_of req).
              (if truthy ([''PII'' \<mapsto> ''true''] (fst entry)) then [''PII'' \<mapsto> ''true''] (fst entry)
               else [''PII'' \<mapsto> ''false''] (fst entry)) = Some (snd entry) \<and> snd entry \<noteq> []))"
    by (simp add: reqs_of_def entries_of_def truthy_def example_defs)
  from properties_take_precedence
    [OF p t, where ags = "[pii_agreement]" and r = ?r] ok every
  have d: "compliant ?r" by blast
  have p': "properties masked_asset = Some [''PII'' \<mapsto> ''false'']"
    and t': "tags masked_asset = Some [''PII'' \<mapsto> ''true'']"
    by (simp_all add: example_defs)
  let ?m = "projr (validateAsset masked_asset [pii_agreement])"
  have reached: "validateAsset masked_asset [pii_agreement] = Inr ?m
      \<and> pii_agreement \<in> set [pii_agreement]
      \<and> inEnvironment masked_asset pii_agreement = Inr True
      \<and> agreementApplies masked_asset pii_agreement
      \<and> parsedRequirements pii_agreement = Some [pii_requirement]
      \<and> pii_requirement \<in> set [pii_requirement]
      \<and> scopeMatches masked_asset pii_requirement = Inr True
      \<and> requiredTags pii_requirement = Some [(''PII'', ''true'')]
      \<and> (''PII'', ''true'') \<in> set [(''PII'', ''true'')]"
    by (simp add: validateAsset_defs example_defs)
  have differs: "truthy ([''PII'' \<mapsto> ''false''] ''PII'') \<and> [''PII'' \<mapsto> ''false''] ''PII'' \<noteq> Some ''true''"
    by (simp add: truthy_def)
  from properties_take_precedence
    [OF p' t', where k = "''PII''" and e = "''true''" and ags = "[pii_agreement]" and r = ?m
      and ag = pii_agreement and reqs = "[pii_requirement]" and req = pii_requirement
      and entries = "[(''PII'', ''true'')]"]
    reached differs
  have e: "mkViolation pii_agreement pii_requirement ''PII'' ''true'' (Some ''false'')
       \<in> set (violations ?m) \<and> \<not> compliant ?m"
    by simp
  from a b c d e show ?thesis by blast
qed

section \<open>Asset discovery: \<open>_fetchAllAssets\<close> (services/databricksClient.js)\<close>

subsection \<open>Choosing the catalogs to scan (lines 612-627)\<close>

text \<open>
  \<open>MAX_CATALOGS\<close> and \<open>MAX_SCHEMAS_PER_CATALOG\<close> are read from the process environment
  with \<open>parseInt\<close>, which gives an integer or \<open>NaN\<close>: an \<^typ>\<open>int option\<close>, with
  \<^term>\<open>None\<close> for \<open>NaN\<close>. They are parameters of the model.
\<close>

type_synonym js_int = "int option"

text \<open>
  \<open>toLowerCase\<close> on the ASCII letters; other characters are left as they are (the code's
  \<open>toLowerCase\<close> also maps letters outside ASCII).
\<close>

definition lower_char :: "char \<Rightarrow> char" where
  "lower_char c =
     (case map_of (zip ''ABCDEFGHIJKLMNOPQRSTUVWXYZ'' ''abcdefghijklmnopqrstuvwxyz'') c of
        None \<Rightarrow> c
      | Some l \<Rightarrow> l)"

definition toLowerCase :: "string \<Rightarrow> string" where
  "toLowerCase s = map lower_char s"

text \<open>A catalog as \<open>listCatalogs\<close> returns it; the crawl reads its name only.\<close>

record catalog =
  cat_name :: string
  catalog_type :: "string option"

text \<open>Line 618: \<open>prioritySet.has(catalog.name.toLowerCase())\<close>.\<close>

definition isPriority :: "string list \<Rightarrow> catalog \<Rightarrow> bool" where
  "isPriority priorityNames c =
     (toLowerCase (cat_name c) \<in> set (map toLowerCase priorityNames))"

text \<open>
  Lines 617-623, the body of the \<open>forEach\<close>: the catalog is pushed onto
  \<open>prioritizedCatalogs\<close> (the first list) or onto \<open>otherCatalogs\<close> (the second).
\<close>

definition partitionStep ::
  "string list \<Rightarrow> catalog list \<times> catalog list \<Rightarrow> catalog \<Rightarrow> catalog list \<times> catalog list" where
  "partitionStep priorityNames acc c =
     (if isPriority priorityNames c then (fst acc @ [c], snd acc)
      else (fst acc, snd acc @ [c]))"

definition partitionCatalogs :: "string list \<Rightarrow> catalog list \<Rightarrow> catalog list \<times> catalog list" where
  "partitionCatalogs priorityNames catalogs =
     foldl (partitionStep priorityNames) ([], []) catalogs"

text \<open>Line 626: \<open>Math.max(0, MAX_CATALOGS - prioritizedCatalogs.length)\<close>; \<open>NaN\<close> stays \<open>NaN\<close>.\<close>

definition remainingSlots :: "js_int \<Rightarrow> nat \<Rightarrow> js_int" where
  "remainingSlots maxCatalogs n =
     (case maxCatalogs of None \<Rightarrow> None | Some m \<Rightarrow> Some (max 0 (m - int n)))"

text \<open>
  \<open>xs.slice(0, e)\<close>: a negative \<open>e\<close> counts from the end of the array, and \<open>NaN\<close> is read
  as 0.
\<close>

definition slice0 :: "'a list \<Rightarrow> js_int \<Rightarrow> 'a list" where
  "slice0 xs e =
     (case e of
        None \<Rightarrow> []
      | Some k \<Rightarrow> if k < 0 then take (nat (int (length xs) + k)) xs else take (nat k) xs)"

text \<open>Line 627: \<open>[...prioritizedCatalogs, ...otherCatalogs.slice(0, remainingSlots)]\<close>.\<close>

definition catalogsToScan :: "js_int \<Rightarrow> string list \<Rightarrow> catalog list \<Rightarrow> catalog list" where
  "catalogsToScan maxCatalogs priorityNames catalogs =
     (let parts = partitionCatalogs priorityNames catalogs;
          prioritizedCatalogs = fst parts;
          otherCatalogs = snd parts
      in prioritizedCatalogs
         @ slice0 otherCatalogs (remainingSlots maxCatalogs (length prioritizedCatalogs)))"

text \<open>
  Fifty catalogs \<open>aa\<close>, \<open>ab\<close>, ..., \<open>ej\<close> in listing order; an agreement names three of
  them, in upper case.
\<close>

definition fifty_catalogs :: "catalog list" where
  "fifty_catalogs =
     map (\<lambda>(a, b). \<lparr>cat_name = [a, b], catalog_type = None\<rparr>)
       (List.product ''abcde'' ''abcdefghij'')"

definition three_names :: "string list" where
  "three_names = [''AC'', ''CA'', ''EJ'']"

subsection \<open>The crawl and the progress it publishes (lines 600-776)\<close>

text \<open>An error of the HTTP client: \<open>error.response?.status\<close> and \<open>error.message\<close>.\<close>

record http_error =
  status :: "nat option"
  message :: string

text \<open>A schema, and a table, volume, function or model, as the remote API lists them.\<close>

record schema =
  sch_name :: string

record remote_object =
  ro_name :: string
  full_name :: "string option"
  ro_properties :: "(string \<rightharpoonup> string) option"

text \<open>
  What the calls of one crawl return: \<open>listCatalogs\<close>, \<open>listSchemas\<close> and \<open>listTables\<close>
  may throw; \<open>listVolumes\<close>, \<open>listFunctions\<close> and \<open>listModels\<close> catch their errors and
  return the empty array (lines 200-275). The cache and the rate limiter inside these calls
  are not part of this model.
\<close>

record remote =
  listCatalogs :: "http_error + catalog list"
  listSchemas :: "string \<Rightarrow> http_error + schema list"
  listTables :: "string \<Rightarrow> string \<Rightarrow> http_error + remote_object list"
  listVolumes :: "string \<Rightarrow> string \<Rightarrow> remote_object list"
  listFunctions :: "string \<Rightarrow> string \<Rightarrow> remote_object list"
  listModels :: "string \<Rightarrow> string \<Rightarrow> remote_object list"

text \<open>
  The progress metadata stored under \<open>all_assets:<envId>:metadata\<close>; a field a state does
  not carry is \<^term>\<open>None\<close>. The \<open>timestamp\<close> field, read from the wall clock, is left out.
\<close>

record progress =
  isLoading :: bool
  catalogsProcessed :: "nat option"
  totalCatalogs :: "nat option"
  priorityCatalogs :: "nat option"
  currentAssetCount :: "nat option"
  error :: "string option"

text \<open>A template literal prints a missing value as \<open>undefined\<close>.\<close>

definition template :: "string option \<Rightarrow> string" where
  "template v = (case v of None \<Rightarrow> ''undefined'' | Some s \<Rightarrow> s)"

text \<open>
  Lines 671-722: the record pushed for one listed object. The spread \<open>...table\<close> keeps the
  object's \<open>name\<close> and \<open>properties\<close>; the other fields are set.
\<close>

definition discoveredAsset ::
  "string \<Rightarrow> string \<Rightarrow> string \<Rightarrow> string \<Rightarrow> (string \<rightharpoonup> string) \<Rightarrow> remote_object \<Rightarrow> asset" where
  "discoveredAsset envId cat sch type tgs obj =
     \<lparr>asset_id = Some (envId @ '':'' @ template (full_name obj)),
      asset_name = ro_name obj,
      fullName = js_or (full_name obj) (Some (cat @ ''.'' @ sch @ ''.'' @ ro_name obj)),
      environmentId = envId,
      catalog_name = cat,
      schema_name = Some sch,
      assetType = Some type,
      properties = ro_properties obj,
      tags = Some tgs\<rparr>"

text \<open>\<open>table.properties || {}\<close>.\<close>

definition propertiesOrEmpty :: "remote_object \<Rightarrow> (string \<rightharpoonup> string)" where
  "propertiesOrEmpty obj = (case ro_properties obj of None \<Rightarrow> Map.empty | Some p \<Rightarrow> p)"

text \<open>
  Lines 660-729, the body of the loop over the schemas: the four lists are awaited
  together, so an error of \<open>listTables\<close> leaves the schema without any asset; otherwise
  tables, volumes, functions and models are pushed in this order.
\<close>

definition schemaAssets :: "string \<Rightarrow> remote \<Rightarrow> string \<Rightarrow> asset list \<Rightarrow> schema \<Rightarrow> asset list" where
  "schemaAssets envId r cat assets s =
     (case listTables r cat (sch_name s) of
        Inl err \<Rightarrow> assets
      | Inr tables \<Rightarrow>
          assets
          @ map (\<lambda>t. discoveredAsset envId cat (sch_name s) ''table'' (propertiesOrEmpty t) t) tables
          @ map (discoveredAsset envId cat (sch_name s) ''volume'' Map.empty)
              (listVolumes r cat (sch_name s))
          @ map (discoveredAsset envId cat (sch_name s) ''function'' Map.empty)
              (listFunctions r cat (sch_name s))
          @ map (discoveredAsset envId cat (sch_name s) ''model'' Map.empty)
              (listModels r cat (sch_name s)))"

text \<open>
  The state of a crawl: the array \<open>allAssets\<close>, the counter \<open>catalogsProcessed\<close>, whether
  the array has been stored under \<open>all_assets:<envId>\<close> (the cache holds the array itself,
  so the entry always shows its current contents), and the progress states written under
  the metadata key, oldest first.
\<close>

record crawl =
  allAssets :: "asset list"
  processed :: nat
  assetsPublished :: bool
  published :: "progress list"

text \<open>
  Lines 647-747, the body of the loop over the catalogs. When \<open>listSchemas\<close> throws, the
  counter is not incremented and nothing is published.
\<close>

definition processCatalog ::
  "string \<Rightarrow> js_int \<Rightarrow> remote \<Rightarrow> nat \<Rightarrow> crawl \<Rightarrow> catalog \<Rightarrow> crawl" where
  "processCatalog envId maxSchemas r toScanCount st c =
     (case listSchemas r (cat_name c) of
        Inl err \<Rightarrow> st
      | Inr schemas \<Rightarrow>
          (let n = Suc (processed st);
               limitedSchemas = slice0 schemas maxSchemas;
               assets = foldl (schemaAssets envId r (cat_name c)) (allAssets st) limitedSchemas
           in \<lparr>allAssets = assets, processed = n, assetsPublished = True,
               published = published st
                 @ [\<lparr>isLoading = True, catalogsProcessed = Some n,
                      totalCatalogs = Some toScanCount,
                      priorityCatalogs = None, currentAssetCount = Some (length assets),
                      error = None\<rparr>]\<rparr>))"

definition fetchAllAssets ::
  "string \<Rightarrow> string list \<Rightarrow> js_int \<Rightarrow> js_int \<Rightarrow> remote \<Rightarrow> crawl" where
  "fetchAllAssets envId priorityNames maxCatalogs maxSchemas r =
     (case listCatalogs r of
        Inl err \<Rightarrow>
          \<lparr>allAssets = [], processed = 0, assetsPublished = False,
           published =
             [\<lparr>isLoading = False, catalogsProcessed = None, totalCatalogs = None,
               priorityCatalogs = None, currentAssetCount = None,
               error = Some (message err)\<rparr>]\<rparr>
      | Inr catalogs \<Rightarrow>
          (let toScan = catalogsToScan maxCatalogs priorityNames catalogs;
               start =
                 \<lparr>allAssets = [], processed = 0, assetsPublished = False,
                  published =
                    [\<lparr>isLoading = True, catalogsProcessed = Some 0,
                      totalCatalogs = Some (length toScan),
                      priorityCatalogs =
                        Some (length (fst (partitionCatalogs priorityNames catalogs))),
                      currentAssetCount = None, error = None\<rparr>]\<rparr>;
               st = foldl (processCatalog envId maxSchemas r (length toScan)) start toScan
           in st\<lparr>assetsPublished := True,
                 published := published st
                   @ [\<lparr>isLoading = False, catalogsProcessed = Some (processed st),
                        totalCatalogs = Some (processed st), priorityCatalogs = None,
                        currentAssetCount = Some (length (allAssets st)), error = None\<rparr>]\<rparr>))"

text \<open>Lines 779-788: the last state written, or the default.\<close>

definition getLoadingStatus :: "progress list \<Rightarrow> progress" where
  "getLoadingStatus written =
     (if written = []
      then \<lparr>isLoading = False, catalogsProcessed = Some 0, totalCatalogs = Some 0,
            priorityCatalogs = None, currentAssetCount = None, error = None\<rparr>
      else last written)"

text \<open>
  The invariant of the spec on one progress state, read as the JavaScript comparison
  \<open>catalogsProcessed <= totalCatalogs\<close>: false when a counter is missing.
\<close>

definition countersInRange :: "progress \<Rightarrow> bool" where
  "countersInRange p =
     (case catalogsProcessed p of
        None \<Rightarrow> False
      | Some k \<Rightarrow> (case totalCatalogs p of None \<Rightarrow> False | Some n \<Rightarrow> k \<le> n))"

text \<open>The number of steps from \<open>true\<close> to \<open>false\<close> in a sequence of flags.\<close>

fun falls :: "bool list \<Rightarrow> nat" where
  "falls (a # b # bs) = (if a \<and> \<not> b then 1 else 0) + falls (b # bs)"
| "falls bs = 0"

text \<open>The counter of a state, 0 where it is missing.\<close>

definition counterOf :: "progress \<Rightarrow> nat" where
  "counterOf p = (case catalogsProcessed p of None \<Rightarrow> 0 | Some k \<Rightarrow> k)"

text \<open>Example remotes: one whose catalog listing fails, and one with two catalogs.\<close>

definition failing_remote :: remote where
  "failing_remote =
     \<lparr>listCatalogs = Inl \<lparr>status = Some 500, message = ''Request failed with status code 500''\<rparr>,
      listSchemas = (\<lambda>c. Inr []),
      listTables = (\<lambda>c s. Inr []),
      listVolumes = (\<lambda>c s. []),
      listFunctions = (\<lambda>c s. []),
      listModels = (\<lambda>c s. [])\<rparr>"

definition two_catalog_remote :: remote where
  "two_catalog_remote =
     \<lparr>listCatalogs =
        Inr [\<lparr>cat_name = ''sales'', catalog_type = None\<rparr>,
             \<lparr>cat_name = ''hr'', catalog_type = None\<rparr>],
      listSchemas =
        (\<lambda>c. if c = ''sales'' then Inr [\<lparr>sch_name = ''core''\<rparr>]
             else Inl \<lparr>status = Some 403, message = ''Forbidden''\<rparr>),
      listTables =
        (\<lambda>c s. Inr [\<lparr>ro_name = ''orders'', full_name = Some ''sales.core.orders'',
                      ro_properties = Some [''PII'' \<mapsto> ''true'']\<rparr>]),
      listVolumes = (\<lambda>c s. []),
      listFunctions = (\<lambda>c s. []),
      listModels = (\<lambda>c s. [])\<rparr>"

text \<open>
  The invariant of the loop over the catalogs: every state written so far is a loading
  state that carries both counters, with the total fixed and the counter at most the
  current \<open>catalogsProcessed\<close>, and the counters never decrease.
\<close>

definition loadingState :: "nat \<Rightarrow> nat \<Rightarrow> progress \<Rightarrow> bool" where
  "loadingState toScanCount bound p =
     (isLoading p \<and> totalCatalogs p = Some toScanCount
      \<and> (case catalogsProcessed p of None \<Rightarrow> False | Some k \<Rightarrow> k \<le> bound))"

definition crawlInv :: "nat \<Rightarrow> crawl \<Rightarrow> bool" where
  "crawlInv toScanCount st =
     (published st \<noteq> [] \<and> list_all (loadingState toScanCount (processed st)) (published st)
      \<and> sorted (map counterOf (published st)))"

subsection \<open>Properties of the catalog selection\<close>

lemma foldl_partitionStep:
  "foldl (partitionStep names) (ps, os) cs =
     (ps @ filter (isPriority names) cs, os @ filter (\<lambda>c. \<not> isPriority names c) cs)"
  by (induction cs arbitrary: ps os) (simp_all add: partitionStep_def)

lemma partitionCatalogs_filter:
  "partitionCatalogs names cs =
     (filter (isPriority names) cs, filter (\<lambda>c. \<not> isPriority names c) cs)"
  by (simp add: partitionCatalogs_def foldl_partitionStep)

lemma catalogsToScan_Some:
  "catalogsToScan (Some m) names cs =
     filter (isPriority names) cs
     @ take (nat (m - int (length (filter (isPriority names) cs))))
         (filter (\<lambda>c. \<not> isPriority names c) cs)"
  by (simp add: catalogsToScan_def partitionCatalogs_filter remainingSlots_def slice0_def
      Let_def max_def)

lemma catalogsToScan_NaN:
  "catalogsToScan None names cs = filter (isPriority names) cs"
  by (simp add: catalogsToScan_def partitionCatalogs_filter remainingSlots_def slice0_def)

text \<open>
  Claim C4. For every list of catalogs and every list of priority names (the shares of the
  agreements), the catalogs to scan are all the priority catalogs of the listing, in
  listing order, followed by the first \<open>MAX_CATALOGS - (number of priority catalogs)\<close>
  other catalogs, in listing order. No priority catalog is dropped, whatever
  \<open>MAX_CATALOGS\<close> is (\<open>NaN\<close> included). With 50 catalogs, 3 of them priority, and
  \<open>MAX_CATALOGS = 10\<close>, these are the 3 priority catalogs and the first 7 others, 10 in all.
\<close>

theorem catalogsToScan_keeps_priority:
  "catalogsToScan (Some m) names cs =
     filter (isPriority names) cs
     @ take (nat (m - int (length (filter (isPriority names) cs))))
         (filter (\<lambda>c. \<not> isPriority names c) cs)
   \<and> (\<forall>c \<in> set cs. isPriority names c \<longrightarrow> c \<in> set (catalogsToScan maxCatalogs names cs))
   \<and> take (length (filter (isPriority names) cs)) (catalogsToScan maxCatalogs names cs)
       = filter (isPriority names) cs
   \<and> length (catalogsToScan (Some m) names cs) =
       length (filter (isPriority names) cs)
       + min (length (filter (\<lambda>c. \<not> isPriority names c) cs))
           (nat (m - int (length (filter (isPriority names) cs))))
   \<and> (length cs = 50 \<and> length (filter (isPriority names) cs) = 3 \<and> m = 10 \<longrightarrow>
        length (catalogsToScan (Some m) names cs) = 10
        \<and> catalogsToScan (Some m) names cs =
            filter (isPriority names) cs @ take 7 (filter (\<lambda>c. \<not> isPriority names c) cs))"
proof (intro conjI)
  show "catalogsToScan (Some m) names cs =
     filter (isPriority names) cs
     @ take (nat (m - int (length (filter (isPriority names) cs))))
         (filter (\<lambda>c. \<not> isPriority names c) cs)"
    by (rule catalogsToScan_Some)
  show "\<forall>c \<in> set cs. isPriority names c \<longrightarrow> c \<in> set (catalogsToScan maxCatalogs names cs)"
    by (cases maxCatalogs) (auto simp: catalogsToScan_Some catalogsToScan_NaN)
  show "take (length (filter (isPriority names) cs)) (catalogsToScan maxCatalogs names cs)
       = filter (isPriority names) cs"
    by (cases maxCatalogs) (simp_all add: catalogsToScan_Some catalogsToScan_NaN)
  show "length (catalogsToScan (Some m) names cs) =
       length (filter (isPriority names) cs)
       + min (length (filter (\<lambda>c. \<not> isPriority names c) cs))
           (nat (m - int (length (filter (isPriority names) cs))))"
    by (simp add: catalogsToScan_Some)
  show "length cs = 50 \<and> length (filter (isPriority names) cs) = 3 \<and> m = 10 \<longrightarrow>
        length (catalogsToScan (Some m) names cs) = 10
        \<and> catalogsToScan (Some m) names cs =
            filter (isPriority names) cs @ take 7 (filter (\<lambda>c. \<not> isPriority names c) cs)"
  proof (intro impI)
    assume h: "length cs = 50 \<and> length (filter (isPriority names) cs) = 3 \<and> m = 10"
    have "length (filter (isPriority names) cs) + length (filter (\<lambda>c. \<not> isPriority names c) cs)
        = length cs"
      by (rule sum_length_filter_compl)
    with h have "length (filter (\<lambda>c. \<not> isPriority names c) cs) = 47" by simp
    with h show "length (catalogsToScan (Some m) names cs) = 10
        \<and> catalogsToScan (Some m) names cs =
            filter (isPriority names) cs @ take 7 (filter (\<lambda>c. \<not> isPriority names c) cs)"
      by (simp add: catalogsToScan_Some)
  qed
qed

lemma fifty_length: "length fifty_catalogs = 50"
  by (simp add: fifty_catalogs_def)

lemma fifty_priority: "length (filter (isPriority three_names) fifty_catalogs) = 3"
  by (simp add: isPriority_def three_names_def fifty_catalogs_def toLowerCase_def lower_char_def)

text \<open>
  Claim C4 on fifty catalogs of which an agreement names three, with \<open>MAX_CATALOGS = 10\<close>.
\<close>

theorem catalogsToScan_keeps_priority_witness:
  "length (catalogsToScan (Some 10) three_names fifty_catalogs) = 10
   \<and> catalogsToScan (Some 10) three_names fifty_catalogs =
       filter (isPriority three_names) fifty_catalogs
       @ take 7 (filter (\<lambda>c. \<not> isPriority three_names c) fifty_catalogs)
   \<and> take 3 (catalogsToScan (Some 10) three_names fifty_catalogs)
       = filter (isPriority three_names) fifty_catalogs"
  using catalogsToScan_keeps_priority [of 10 three_names fifty_catalogs "Some 10"]
    fifty_length fifty_priority
  by simp

subsection \<open>Properties of the published progress\<close>

text \<open>
  Claim C9 as stated fails for a run whose catalog listing throws (lines 766-772): the
  only state the run publishes has \<open>isLoading = false\<close> and the error, and no counters, so
  \<open>catalogsProcessed <= totalCatalogs\<close> does not hold of it; and a client that read the
  default status before the run never sees \<open>isLoading\<close> go from true to false.
\<close>

theorem failed_listing_publishes_no_counters:
  "published (fetchAllAssets ''prod'' [] (Some 10) (Some 5) failing_remote) =
     [\<lparr>isLoading = False, catalogsProcessed = None, totalCatalogs = None,
       priorityCatalogs = None, currentAssetCount = None,
       error = Some ''Request failed with status code 500''\<rparr>]
   \<and> \<not> list_all countersInRange
         (published (fetchAllAssets ''prod'' [] (Some 10) (Some 5) failing_remote))
   \<and> falls (map isLoading
        (getLoadingStatus []
         # published (fetchAllAssets ''prod'' [] (Some 10) (Some 5) failing_remote))) = 0"
  by (simp add: fetchAllAssets_def failing_remote_def countersInRange_def getLoadingStatus_def)

lemma loadingState_mono:
  "loadingState n k p \<Longrightarrow> k \<le> k' \<Longrightarrow> loadingState n k' p"
  by (auto simp: loadingState_def split: option.splits)

lemma loadingState_counter:
  "loadingState n k p \<Longrightarrow> counterOf p \<le> k"
  by (auto simp: loadingState_def counterOf_def split: option.splits)

lemma processCatalog_processed:
  "processed st \<le> processed (processCatalog envId maxSchemas r n st c)
   \<and> processed (processCatalog envId maxSchemas r n st c) \<le> Suc (processed st)"
  by (simp add: processCatalog_def Let_def split: sum.splits)

lemma processCatalog_inv:
  assumes inv: "crawlInv n st"
  shows "crawlInv n (processCatalog envId maxSchemas r n st c)"
proof (cases "listSchemas r (cat_name c)")
  case (Inl err)
  with inv show ?thesis by (simp add: processCatalog_def)
next
  case (Inr schemas)
  let ?new = "\<lparr>isLoading = True, catalogsProcessed = Some (Suc (processed st)),
      totalCatalogs = Some n, priorityCatalogs = None,
      currentAssetCount = Some (length (foldl (schemaAssets envId r (cat_name c)) (allAssets st)
        (slice0 schemas maxSchemas))), error = None\<rparr>"
  have pub: "published (processCatalog envId maxSchemas r n st c) = published st @ [?new]"
    and proc: "processed (processCatalog envId maxSchemas r n st c) = Suc (processed st)"
    using Inr by (simp_all add: processCatalog_def Let_def)
  from inv have old: "list_all (loadingState n (processed st)) (published st)"
    and srt: "sorted (map counterOf (published st))"
    by (simp_all add: crawlInv_def)
  from old have "list_all (loadingState n (Suc (processed st))) (published st)"
    by (auto simp: list_all_iff intro: loadingState_mono)
  moreover have "loadingState n (Suc (processed st)) ?new"
    by (simp add: loadingState_def)
  moreover have "\<forall>p \<in> set (published st). counterOf p \<le> counterOf ?new"
    using old by (auto simp: list_all_iff counterOf_def dest!: loadingState_counter)
  then have "sorted (map counterOf (published st @ [?new]))"
    using srt by (simp add: sorted_append)
  ultimately show ?thesis
    unfolding crawlInv_def pub proc by simp
qed

lemma foldl_processCatalog_inv:
  "crawlInv n st \<Longrightarrow>
   crawlInv n (foldl (processCatalog envId maxSchemas r n) st cs)
   \<and> processed (foldl (processCatalog envId maxSchemas r n) st cs) \<le> processed st + length cs"
proof (induction cs arbitrary: st)
  case Nil
  then show ?case by simp
next
  case (Cons c cs)
  let ?st1 = "processCatalog envId maxSchemas r n st c"
  from processCatalog_inv [OF Cons.prems] have inv1: "crawlInv n ?st1" .
  from Cons.IH [OF inv1]
  have "crawlInv n (foldl (processCatalog envId maxSchemas r n) ?st1 cs)"
    and "processed (foldl (processCatalog envId maxSchemas r n) ?st1 cs) \<le> processed ?st1 + length cs"
    by simp_all
  moreover have "processed ?st1 \<le> Suc (processed st)"
    using processCatalog_processed [of st envId maxSchemas r n c] by simp
  ultimately show ?case by simp
qed

lemma falls_loading_then_done:
  "list_all (\<lambda>b. b) bs \<Longrightarrow> bs \<noteq> [] \<Longrightarrow> falls (bs @ [False]) = 1"
proof (induction bs)
  case Nil
  then show ?case by simp
next
  case (Cons b bs)
  show ?case
  proof (cases bs)
    case Nil
    with Cons.prems show ?thesis by simp
  next
    case (Cons b' bs')
    with Cons.prems Cons.IH show ?thesis by simp
  qed
qed

lemma fetchAllAssets_published_ok:
  assumes "listCatalogs r = Inr catalogs"
  shows "\<exists>st n. crawlInv n st \<and> processed st \<le> n
     \<and> published (fetchAllAssets envId names maxCatalogs maxSchemas r) =
         published st
         @ [\<lparr>isLoading = False, catalogsProcessed = Some (processed st),
              totalCatalogs = Some (processed st), priorityCatalogs = None,
              currentAssetCount = Some (length (allAssets st)), error = None\<rparr>]"
proof -
  let ?toScan = "catalogsToScan maxCatalogs names catalogs"
  let ?n = "length ?toScan"
  let ?start = "\<lparr>allAssets = [], processed = 0, assetsPublished = False,
      published = [\<lparr>isLoading = True, catalogsProcessed = Some 0, totalCatalogs = Some ?n,
         priorityCatalogs = Some (length (fst (partitionCatalogs names catalogs))),
         currentAssetCount = None, error = None\<rparr>]\<rparr>"
  let ?st = "foldl (processCatalog envId maxSchemas r ?n) ?start ?toScan"
  have "crawlInv ?n ?start"
    by (simp add: crawlInv_def loadingState_def counterOf_def)
  from foldl_processCatalog_inv [OF this, of envId maxSchemas r ?toScan]
  have "crawlInv ?n ?st" and "processed ?st \<le> ?n" by simp_all
  moreover have "published (fetchAllAssets envId names maxCatalogs maxSchemas r) =
         published ?st
         @ [\<lparr>isLoading = False, catalogsProcessed = Some (processed ?st),
              totalCatalogs = Some (processed ?st), priorityCatalogs = None,
              currentAssetCount = Some (length (allAssets ?st)), error = None\<rparr>]"
    using assms by (simp add: fetchAllAssets_def Let_def)
  ultimately show ?thesis by blast
qed

text \<open>
  Claim C9, amended. In a run whose catalog listing succeeds, every published progress
  state carries both counters with \<open>catalogsProcessed <= totalCatalogs\<close>; the counter never
  decreases from one published state to the next; \<open>isLoading\<close> is true in every published
  state but the last and false in the last, and there are at least two states, so it goes
  from true to false exactly once. A run whose catalog listing throws publishes a single
  state, with \<open>isLoading = false\<close>, the error message and no counters.
\<close>

theorem fetchAllAssets_progress:
  "(listCatalogs r = Inr catalogs \<longrightarrow>
      list_all countersInRange (published (fetchAllAssets envId names maxCatalogs maxSchemas r))
      \<and> sorted (map counterOf (published (fetchAllAssets envId names maxCatalogs maxSchemas r)))
      \<and> list_all isLoading (butlast (published (fetchAllAssets envId names maxCatalogs maxSchemas r)))
      \<and> \<not> isLoading (last (published (fetchAllAssets envId names maxCatalogs maxSchemas r)))
      \<and> 2 \<le> length (published (fetchAllAssets envId names maxCatalogs maxSchemas r))
      \<and> falls (map isLoading (published (fetchAllAssets envId names maxCatalogs maxSchemas r))) = 1)
   \<and> (listCatalogs r = Inl err \<longrightarrow>
        published (fetchAllAssets envId names maxCatalogs maxSchemas r) =
          [\<lparr>isLoading = False, catalogsProcessed = None, totalCatalogs = None,
            priorityCatalogs = None, currentAssetCount = None, error = Some (message err)\<rparr>])"
proof (intro conjI impI)
  assume ok: "listCatalogs r = Inr catalogs"
  let ?ps = "published (fetchAllAssets envId names maxCatalogs maxSchemas r)"
  from fetchAllAssets_published_ok [OF ok, of envId names maxCatalogs maxSchemas]
  obtain st n where inv: "crawlInv n st" and le: "processed st \<le> n"
    and ps: "?ps = published st
         @ [\<lparr>isLoading = False, catalogsProcessed = Some (processed st),
              totalCatalogs = Some (processed st), priorityCatalogs = None,
              currentAssetCount = Some (length (allAssets st)), error = None\<rparr>]"
    by blast
  from inv have ne: "published st \<noteq> []"
    and all: "list_all (loadingState n (processed st)) (published st)"
    and srt: "sorted (map counterOf (published st))"
    by (simp_all add: crawlInv_def)
  from all le have "list_all countersInRange (published st)"
    by (auto simp: list_all_iff loadingState_def countersInRange_def split: option.splits)
  then show "list_all countersInRange ?ps"
    by (simp add: ps countersInRange_def)
  from all have "\<forall>p \<in> set (published st). counterOf p \<le> processed st"
    by (auto simp: list_all_iff dest: loadingState_counter)
  with srt show "sorted (map counterOf ?ps)"
    by (simp add: ps sorted_append counterOf_def)
  from all have loading: "list_all isLoading (published st)"
    by (auto simp: list_all_iff loadingState_def)
  then show "list_all isLoading (butlast ?ps)" by (simp add: ps)
  show "\<not> isLoading (last ?ps)" by (simp add: ps)
  from ne show "2 \<le> length ?ps" by (cases "published st") (simp_all add: ps)
  from loading have "list_all (\<lambda>b. b) (map isLoading (published st))"
    by (simp add: list_all_iff)
  from falls_loading_then_done [OF this] ne
  show "falls (map isLoading ?ps) = 1" by (simp add: ps)
next
  assume "listCatalogs r = Inl err"
  then show "published (fetchAllAssets envId names maxCatalogs maxSchemas r) =
          [\<lparr>isLoading = False, catalogsProcessed = None, totalCatalogs = None,
            priorityCatalogs = None, currentAssetCount = None, error = Some (message err)\<rparr>]"
    by (simp add: fetchAllAssets_def)
qed

text \<open>
  Claim C9 on a run over two catalogs, the second of which cannot be listed, and on a run
  whose catalog listing fails.
\<close>

theorem fetchAllAssets_progress_witness:
  "list_all countersInRange
     (published (fetchAllAssets ''prod'' [] (Some 10) (Some 5) two_catalog_remote))
   \<and> sorted (map counterOf
       (published (fetchAllAssets ''prod'' [] (Some 10) (Some 5) two_catalog_remote)))
   \<and> falls (map isLoading
       (published (fetchAllAssets ''prod'' [] (Some 10) (Some 5) two_catalog_remote))) = 1
   \<and> published (fetchAllAssets ''prod'' [] (Some 10) (Some 5) failing_remote) =
       [\<lparr>isLoading = False, catalogsProcessed = None, totalCatalogs = None,
         priorityCatalogs = None, currentAssetCount = None,
         error = Some ''Request failed with status code 500''\<rparr>]"
proof -
  have ok: "listCatalogs two_catalog_remote =
      Inr [\<lparr>cat_name = ''sales'', catalog_type = None\<rparr>, \<lparr>cat_name = ''hr'', catalog_type = None\<rparr>]"
    by (simp add: two_catalog_remote_def)
  have bad: "listCatalogs failing_remote =
      Inl \<lparr>status = Some 500, message = ''Request failed with status code 500''\<rparr>"
    by (simp add: failing_remote_def)
  from fetchAllAssets_progress [of two_catalog_remote _ "''prod''" "[]" "Some 10" "Some 5"] ok
    fetchAllAssets_progress [of failing_remote _ "''prod''" "[]" "Some 10" "Some 5"] bad
  show ?thesis by simp
qed

section \<open>The rate-limited transport: \<open>rateLimitedRequest\<close> (lines 36-69)\<close>

text \<open>
  The module state of the limiter (\<open>lastRequestTime\<close>, \<open>consecutiveErrors\<close>) with the
  clock, in milliseconds. Two fields record what a run does: \<open>calls\<close> counts the
  invocations of the request function, and \<open>backoffs\<close> lists the backoff delays slept,
  oldest first (each is logged on line 63). Times are rationals: \<open>Math.pow(2, 3 - retries)\<close>
  is a fraction for a budget above 3. The model is one call on its own: requests that run
  between its awaits may change \<open>lastRequestTime\<close> and \<open>consecutiveErrors\<close>, which
  neither the backoff delay nor the decision to retry reads.
\<close>

record limiter =
  clock :: rat
  lastRequestTime :: rat
  consecutiveErrors :: nat
  calls :: nat
  backoffs :: "rat list"

definition MIN_REQUEST_INTERVAL :: rat where
  "MIN_REQUEST_INTERVAL = 300"

text \<open>\<open>await sleep(ms)\<close>: the clock moves on by \<open>ms\<close>.\<close>

definition sleep :: "rat \<Rightarrow> limiter \<Rightarrow> limiter" where
  "sleep ms s = s\<lparr>clock := clock s + ms\<rparr>"

text \<open>Line 62: \<open>Math.min(1000 * Math.pow(2, 3 - retries), 8000)\<close>.\<close>

definition backoffDelay :: "nat \<Rightarrow> rat" where
  "backoffDelay retries = min (1000 * 2 powi (3 - int retries)) 8000"

text \<open>
  The request function \<open>fn\<close> is a script: its \<open>k\<close>-th invocation returns \<open>fst (fn k)\<close>, a
  response or the error thrown, after \<open>snd (fn k)\<close> milliseconds (the 2 seconds that the
  response interceptor of lines 98-110 waits on a 429 are part of this time).
\<close>

fun rateLimitedRequest ::
  "(nat \<Rightarrow> (http_error + 'a) \<times> rat) \<Rightarrow> nat \<Rightarrow> limiter \<Rightarrow> (http_error + 'a) \<times> limiter" where
  "rateLimitedRequest fn retries s =
     (let timeSinceLastRequest = clock s - lastRequestTime s;
          adaptiveDelay = MIN_REQUEST_INTERVAL * (1 + of_nat (consecutiveErrors s));
          s1 = (if timeSinceLastRequest < adaptiveDelay
                then sleep (adaptiveDelay - timeSinceLastRequest) s else s);
          s2 = s1\<lparr>lastRequestTime := clock s1\<rparr>;
          result = fst (fn (calls s2));
          s3 = s2\<lparr>calls := Suc (calls s2), clock := clock s2 + snd (fn (calls s2))\<rparr>
      in case result of
           Inr response \<Rightarrow> (Inr response, s3\<lparr>consecutiveErrors := 0\<rparr>)
         | Inl err \<Rightarrow>
             if status err = Some 429 \<and> retries > 0
             then rateLimitedRequest fn (retries - 1)
                    (sleep (backoffDelay retries)
                       (s3\<lparr>consecutiveErrors := Suc (consecutiveErrors s3),
                           backoffs := backoffs s3 @ [backoffDelay retries]\<rparr>))
             else (Inl err, s3))"

text \<open>The delays of \<open>m\<close> retries that start with \<open>retries\<close> left, in the order slept.\<close>

definition backoffSchedule :: "nat \<Rightarrow> nat \<Rightarrow> rat list" where
  "backoffSchedule retries m = map backoffDelay (rev [Suc (retries - m)..<Suc retries])"

text \<open>A limiter at rest, and a request function that is always answered with a 429.\<close>

definition idle_limiter :: limiter where
  "idle_limiter =
     \<lparr>clock = 0, lastRequestTime = 0, consecutiveErrors = 0, calls = 0, backoffs = []\<rparr>"

definition always_429 :: "nat \<Rightarrow> (http_error + unit) \<times> rat" where
  "always_429 k =
     (Inl \<lparr>status = Some 429, message = ''Request failed with status code 429''\<rparr>, 2050)"

text \<open>The limiter right after the request function has been invoked (lines 43-56).\<close>

definition afterCall :: "(nat \<Rightarrow> (http_error + 'a) \<times> rat) \<Rightarrow> limiter \<Rightarrow> limiter" where
  "afterCall fn s =
     (let timeSinceLastRequest = clock s - lastRequestTime s;
          adaptiveDelay = MIN_REQUEST_INTERVAL * (1 + of_nat (consecutiveErrors s));
          s1 = (if timeSinceLastRequest < adaptiveDelay
                then sleep (adaptiveDelay - timeSinceLastRequest) s else s);
          s2 = s1\<lparr>lastRequestTime := clock s1\<rparr>
      in s2\<lparr>calls := Suc (calls s2), clock := clock s2 + snd (fn (calls s2))\<rparr>)"

subsection \<open>Properties of the backoff\<close>

lemma afterCall_fields:
  "calls (afterCall fn s) = Suc (calls s)" "backoffs (afterCall fn s) = backoffs s"
  by (simp_all add: afterCall_def sleep_def Let_def)

lemma rateLimitedRequest_unfold:
  "rateLimitedRequest fn retries s =
     (case fst (fn (calls s)) of
        Inr response \<Rightarrow> (Inr response, (afterCall fn s)\<lparr>consecutiveErrors := 0\<rparr>)
      | Inl err \<Rightarrow>
          if status err = Some 429 \<and> retries > 0
          then rateLimitedRequest fn (retries - 1)
                 (sleep (backoffDelay retries)
                    ((afterCall fn s)\<lparr>consecutiveErrors := Suc (consecutiveErrors (afterCall fn s)),
                        backoffs := backoffs s @ [backoffDelay retries]\<rparr>))
          else (Inl err, afterCall fn s))"
  by (subst rateLimitedRequest.simps) (simp add: afterCall_def sleep_def Let_def split: sum.splits)

declare rateLimitedRequest.simps [simp del]

lemma backoffDelay_antimono: "r' \<le> r \<Longrightarrow> backoffDelay r \<le> backoffDelay r'"
proof -
  assume "r' \<le> r"
  then have "(2::rat) powi (3 - int r) \<le> 2 powi (3 - int r')"
    by (intro power_int_increasing) simp_all
  then show ?thesis by (simp add: backoffDelay_def min_le_iff_disj)
qed

lemma backoffDelay_cap: "backoffDelay r \<le> 8000"
  by (simp add: backoffDelay_def)

lemma backoffSchedule_0: "backoffSchedule retries 0 = []"
  by (simp add: backoffSchedule_def)

lemma backoffSchedule_Suc:
  assumes "m < retries"
  shows "backoffSchedule retries (Suc m) = backoffDelay retries # backoffSchedule (retries - 1) m"
proof -
  from assms have "[Suc (retries - Suc m)..<Suc retries] = [retries - m..<retries] @ [retries]"
    by (simp add: Suc_diff_Suc)
  moreover from assms have "[retries - m..<retries] = [Suc (retries - 1 - m)..<Suc (retries - 1)]"
    by (simp add: Suc_diff_Suc)
  ultimately show ?thesis by (simp add: backoffSchedule_def)
qed

lemma set_backoffSchedule:
  assumes "d \<in> set (backoffSchedule retries m)"
  shows "\<exists>r. 0 < r \<and> r \<le> retries \<and> d = backoffDelay r"
proof -
  from assms obtain r where "r \<in> set [Suc (retries - m)..<Suc retries]" "d = backoffDelay r"
    by (auto simp: backoffSchedule_def)
  then show ?thesis by (intro exI [of _ r]) auto
qed

lemma sorted_backoffSchedule: "m \<le> retries \<Longrightarrow> sorted (backoffSchedule retries m)"
proof (induction m arbitrary: retries)
  case 0
  then show ?case by (simp add: backoffSchedule_0)
next
  case (Suc m)
  then have lt: "m < retries" by simp
  then have "m \<le> retries - 1" by simp
  from Suc.IH [OF this] have "sorted (backoffSchedule (retries - 1) m)" .
  moreover have "\<forall>d \<in> set (backoffSchedule (retries - 1) m). backoffDelay retries \<le> d"
  proof
    fix d assume "d \<in> set (backoffSchedule (retries - 1) m)"
    from set_backoffSchedule [OF this] obtain r where "r \<le> retries - 1" "d = backoffDelay r"
      by blast
    then show "backoffDelay retries \<le> d" by (simp add: backoffDelay_antimono)
  qed
  ultimately show ?case by (simp add: backoffSchedule_Suc [OF lt])
qed

lemma rateLimitedRequest_trace:
  "\<exists>m \<le> retries.
     backoffs (snd (rateLimitedRequest fn retries s)) = backoffs s @ backoffSchedule retries m
     \<and> calls (snd (rateLimitedRequest fn retries s)) = calls s + Suc m"
proof (induction retries arbitrary: s)
  case 0
  show ?case
    by (subst (1 2) rateLimitedRequest_unfold)
      (simp add: afterCall_fields backoffSchedule_0 split: sum.splits)
next
  case (Suc n)
  show ?case
  proof (cases "fst (fn (calls s))")
    case (Inr response)
    then have "rateLimitedRequest fn (Suc n) s =
        (Inr response, (afterCall fn s)\<lparr>consecutiveErrors := 0\<rparr>)"
      by (subst rateLimitedRequest_unfold) simp
    then have "backoffs (snd (rateLimitedRequest fn (Suc n) s)) = backoffs s @ backoffSchedule (Suc n) 0
       \<and> calls (snd (rateLimitedRequest fn (Suc n) s)) = calls s + Suc 0"
      by (simp add: afterCall_fields backoffSchedule_0)
    then show ?thesis by blast
  next
    case (Inl err)
    show ?thesis
    proof (cases "status err = Some 429")
      case False
      with Inl have "rateLimitedRequest fn (Suc n) s = (Inl err, afterCall fn s)"
        by (subst rateLimitedRequest_unfold) simp
      then have "backoffs (snd (rateLimitedRequest fn (Suc n) s)) = backoffs s @ backoffSchedule (Suc n) 0
         \<and> calls (snd (rateLimitedRequest fn (Suc n) s)) = calls s + Suc 0"
        by (simp add: afterCall_fields backoffSchedule_0)
      then show ?thesis by blast
    next
      case True
      let ?s' = "sleep (backoffDelay (Suc n))
          ((afterCall fn s)\<lparr>consecutiveErrors := Suc (consecutiveErrors (afterCall fn s)),
              backoffs := backoffs s @ [backoffDelay (Suc n)]\<rparr>)"
      from True Inl have step: "rateLimitedRequest fn (Suc n) s = rateLimitedRequest fn n ?s'"
        by (subst rateLimitedRequest_unfold) simp
      from Suc.IH [of ?s'] obtain m where m: "m \<le> n"
        and b: "backoffs (snd (rateLimitedRequest fn n ?s')) = backoffs ?s' @ backoffSchedule n m"
        and c: "calls (snd (rateLimitedRequest fn n ?s')) = calls ?s' + Suc m"
        by blast
      from m have "backoffSchedule (Suc n) (Suc m) = backoffDelay (Suc n) # backoffSchedule n m"
        using backoffSchedule_Suc [of m "Suc n"] by simp
      with b c have "backoffs (snd (rateLimitedRequest fn (Suc n) s))
            = backoffs s @ backoffSchedule (Suc n) (Suc m)
         \<and> calls (snd (rateLimitedRequest fn (Suc n) s)) = calls s + Suc (Suc m)"
        by (simp add: step sleep_def afterCall_fields)
      with m show ?thesis by (intro exI [of _ "Suc m"]) simp
    qed
  qed
qed

lemma rateLimitedRequest_exhausted:
  assumes "\<forall>k \<le> retries. \<exists>err. fst (fn (calls s + k)) = Inl err \<and> status err = Some 429"
  shows "fst (rateLimitedRequest fn retries s) = fst (fn (calls s + retries))
     \<and> backoffs (snd (rateLimitedRequest fn retries s)) = backoffs s @ backoffSchedule retries retries
     \<and> calls (snd (rateLimitedRequest fn retries s)) = calls s + Suc retries"
  using assms
proof (induction retries arbitrary: s)
  case 0
  then obtain err where "fst (fn (calls s)) = Inl err" by auto
  then show ?case
    by (subst (1 2 3) rateLimitedRequest_unfold) (simp add: afterCall_fields backoffSchedule_0)
next
  case (Suc n)
  from Suc.prems obtain err where err: "fst (fn (calls s)) = Inl err" "status err = Some 429"
    by (metis add.right_neutral le0)
  let ?s' = "sleep (backoffDelay (Suc n))
      ((afterCall fn s)\<lparr>consecutiveErrors := Suc (consecutiveErrors (afterCall fn s)),
          backoffs := backoffs s @ [backoffDelay (Suc n)]\<rparr>)"
  from err have step: "rateLimitedRequest fn (Suc n) s = rateLimitedRequest fn n ?s'"
    by (subst rateLimitedRequest_unfold) simp
  have calls': "calls ?s' = Suc (calls s)" by (simp add: sleep_def afterCall_fields)
  have backoffs': "backoffs ?s' = backoffs s @ [backoffDelay (Suc n)]" by (simp add: sleep_def)
  have "\<forall>k \<le> n. \<exists>err. fst (fn (calls ?s' + k)) = Inl err \<and> status err = Some 429"
  proof (intro allI impI)
    fix k assume "k \<le> n"
    then have "Suc k \<le> Suc n" by simp
    with Suc.prems have "\<exists>err. fst (fn (calls s + Suc k)) = Inl err \<and> status err = Some 429"
      by blast
    then show "\<exists>err. fst (fn (calls ?s' + k)) = Inl err \<and> status err = Some 429"
      by (simp add: calls')
  qed
  from Suc.IH [OF this]
  have "fst (rateLimitedRequest fn n ?s') = fst (fn (calls ?s' + n))"
    and "backoffs (snd (rateLimitedRequest fn n ?s')) = backoffs ?s' @ backoffSchedule n n"
    and "calls (snd (rateLimitedRequest fn n ?s')) = calls ?s' + Suc n"
    by simp_all
  moreover have "backoffSchedule (Suc n) (Suc n) = backoffDelay (Suc n) # backoffSchedule n n"
    using backoffSchedule_Suc [of n "Suc n"] by simp
  ultimately show ?case
    by (simp add: step calls' backoffs')
qed

lemma default_schedule: "backoffSchedule 3 3 = [1000, 2000, 4000]"
  by (simp add: backoffSchedule_def backoffDelay_def upt_rec numeral_eq_Suc power_int_def)

text \<open>
  Claim C3. Whatever the request function answers, a call of \<open>rateLimitedRequest\<close> with a
  budget of \<open>retries\<close> sleeps the first \<open>m\<close> backoff delays of the schedule, for some
  \<open>m \<le> retries\<close>, and invokes the request function \<open>m + 1\<close> times; the delays slept are in
  non-decreasing order and none exceeds the maximum of 8000 ms. When the request function
  answers \<open>retries + 1\<close> times in a row with a 429, all \<open>retries\<close> retries are made and the
  error of the last invocation is what the caller gets; the request function is not
  invoked again. With the default budget of 3 the delays are 1000, 2000 and 4000 ms.
\<close>

theorem rateLimitedRequest_backoff:
  "(\<exists>m \<le> retries.
      backoffs (snd (rateLimitedRequest fn retries s)) = backoffs s @ backoffSchedule retries m
      \<and> calls (snd (rateLimitedRequest fn retries s)) = calls s + Suc m
      \<and> sorted (backoffSchedule retries m)
      \<and> list_all (\<lambda>d. d \<le> 8000) (backoffSchedule retries m))
   \<and> ((\<forall>k \<le> retries. \<exists>err. fst (fn (calls s + k)) = Inl err \<and> status err = Some 429) \<longrightarrow>
        fst (rateLimitedRequest fn retries s) = fst (fn (calls s + retries))
        \<and> backoffs (snd (rateLimitedRequest fn retries s))
            = backoffs s @ backoffSchedule retries retries
        \<and> calls (snd (rateLimitedRequest fn retries s)) = calls s + Suc retries)
   \<and> backoffSchedule 3 3 = [1000, 2000, 4000]"
proof (intro conjI impI)
  from rateLimitedRequest_trace [of retries fn s] obtain m where m: "m \<le> retries"
    and tr: "backoffs (snd (rateLimitedRequest fn retries s)) = backoffs s @ backoffSchedule retries m"
      "calls (snd (rateLimitedRequest fn retries s)) = calls s + Suc m"
    by blast
  have "list_all (\<lambda>d. d \<le> 8000) (backoffSchedule retries m)"
    by (auto simp: list_all_iff dest!: set_backoffSchedule intro: backoffDelay_cap)
  with m tr sorted_backoffSchedule [OF m]
  show "\<exists>m \<le> retries.
      backoffs (snd (rateLimitedRequest fn retries s)) = backoffs s @ backoffSchedule retries m
      \<and> calls (snd (rateLimitedRequest fn retries s)) = calls s + Suc m
      \<and> sorted (backoffSchedule retries m)
      \<and> list_all (\<lambda>d. d \<le> 8000) (backoffSchedule retries m)"
    by blast
next
  assume all: "\<forall>k \<le> retries. \<exists>err. fst (fn (calls s + k)) = Inl err \<and> status err = Some 429"
  from rateLimitedRequest_exhausted [OF all]
  show "fst (rateLimitedRequest fn retries s) = fst (fn (calls s + retries))"
    and "backoffs (snd (rateLimitedRequest fn retries s))
            = backoffs s @ backoffSchedule retries retries"
    and "calls (snd (rateLimitedRequest fn retries s)) = calls s + Suc retries"
    by simp_all
next
  show "backoffSchedule 3 3 = [1000, 2000, 4000]" by (rule default_schedule)
qed

text \<open>
  Claim C3 with the default budget on a request function that is always answered with a
  429: three retries after 1000, 2000 and 4000 ms, four invocations, and the 429 surfaces.
\<close>

theorem rateLimitedRequest_backoff_witness:
  "fst (rateLimitedRequest always_429 3 idle_limiter) =
     Inl \<lparr>status = Some 429, message = ''Request failed with status code 429''\<rparr>
   \<and> backoffs (snd (rateLimitedRequest always_429 3 idle_limiter)) = [1000, 2000, 4000]
   \<and> calls (snd (rateLimitedRequest always_429 3 idle_limiter)) = 4"
proof -
  have all: "\<forall>k \<le> 3. \<exists>err. fst (always_429 (calls idle_limiter + k)) = Inl err \<and> status err = Some 429"
    by (simp add: always_429_def)
  from rateLimitedRequest_backoff [of 3 always_429 idle_limiter] all
  show ?thesis by (simp add: always_429_def idle_limiter_def)
qed

section \<open>The validation cache layer: the routes of routes/validation.js\<close>

text \<open>
  The payloads of the three cached routes. The \<open>note\<close> of an overview is kept as a value
  (the code formats the number of catalogs into a sentence). An error reply carries the
  route's error title; the message of the error thrown is left out.
\<close>

datatype overview_note = LoadingAssets | ShowingScannedShares nat

record overall_stats =
  o_totalAssets :: nat
  o_totalCatalogs :: nat
  o_catalogsScanned :: nat
  o_compliantAssets :: nat
  o_nonCompliantAssets :: nat
  o_criticalViolations :: nat
  o_compliancePercentage :: int
  o_note :: overview_note

record environment_stats =
  e_environmentId :: string
  e_totalAssets :: nat
  e_compliantAssets :: nat
  e_compliancePercentage :: int

record overview =
  overall :: overall_stats
  byEnvironment :: "environment_stats list"
  lastUpdated :: int

record violations_report =
  vr_violations :: "validation_result list"
  vr_totalAssets :: nat
  vr_compliantAssets :: nat
  vr_violatingAssets :: nat
  vr_note :: "string option"

record validate_all_report =
  va_results :: "validation_result list"
  va_total :: nat
  va_compliant :: nat
  va_nonCompliant :: nat

datatype payload =
  OverviewData overview
| ViolationsData violations_report
| ValidateAllData validate_all_report
| ErrorData string

record cache_entry =
  data :: payload
  timestamp :: int

type_synonym validationCache = "string \<rightharpoonup> cache_entry"

record reply =
  http_status :: nat
  body :: payload

text \<open>
  What one request does: its reply, the validation cache it leaves, and the environments
  whose assets it asked \<open>getAllShareTables\<close> for, in order.
\<close>

record handled =
  h_reply :: reply
  h_cache :: validationCache
  h_fetched :: "string list"

text \<open>
  The clock, read when the cache is checked, when the payload is stamped
  (\<open>lastUpdated\<close>) and when it is stored.
\<close>

record clock_reads =
  atCheck :: int
  atStamp :: int
  atStore :: int

definition VALIDATION_CACHE_TTL :: int where
  "VALIDATION_CACHE_TTL = 5 * 60 * 1000"

text \<open>\<open>cached && Date.now() - cached.timestamp < VALIDATION_CACHE_TTL\<close>.\<close>

definition freshEntry :: "clock_reads \<Rightarrow> validationCache \<Rightarrow> string \<Rightarrow> cache_entry option" where
  "freshEntry t c key =
     (case c key of
        None \<Rightarrow> None
      | Some entry \<Rightarrow>
          if atCheck t - timestamp entry < VALIDATION_CACHE_TTL then Some entry else None)"

definition ok :: "payload \<Rightarrow> reply" where
  "ok p = \<lparr>http_status = 200, body = p\<rparr>"

definition failed :: "string \<Rightarrow> reply" where
  "failed title = \<lparr>http_status = 500, body = ErrorData title\<rparr>"

text \<open>
  The loop over the environments (lines 97-105, 298-305, 371-378): the assets of an
  environment whose fetch throws are skipped. \<open>fetchAssets\<close> stands for
  \<open>deltaSharing.getAllShareTables\<close>.
\<close>

definition gatherAssets :: "string list \<Rightarrow> (string \<Rightarrow> http_error + asset list) \<Rightarrow> asset list" where
  "gatherAssets envIds fetchAssets =
     foldl (\<lambda>acc envId. case fetchAssets envId of Inl err \<Rightarrow> acc | Inr assets \<Rightarrow> acc @ assets)
       [] envIds"

text \<open>\<open>xs.map(f)\<close> where \<open>f\<close> may throw.\<close>

fun mapE :: "('a \<Rightarrow> js_error + 'b) \<Rightarrow> 'a list \<Rightarrow> js_error + 'b list" where
  "mapE f [] = Inr []"
| "mapE f (x # xs) =
     (case f x of
        Inl err \<Rightarrow> Inl err
      | Inr y \<Rightarrow> (case mapE f xs of Inl err \<Rightarrow> Inl err | Inr ys \<Rightarrow> Inr (y # ys)))"

subsection \<open>\<open>GET /violations\<close> (lines 267-329)\<close>

definition emptyResult :: violations_report where
  "emptyResult =
     \<lparr>vr_violations = [], vr_totalAssets = 0, vr_compliantAssets = 0, vr_violatingAssets = 0,
      vr_note = Some ''No agreements defined. Create an agreement to check for violations.''\<rparr>"

text \<open>Lines 277-325: what the route computes when the cache has no fresh entry.\<close>

definition computeViolations ::
  "clock_reads \<Rightarrow> validationCache \<Rightarrow> string list \<Rightarrow> agreement list
   \<Rightarrow> (string \<Rightarrow> http_error + asset list) \<Rightarrow> handled" where
  "computeViolations t c envIds agreements fetchAssets =
     (if length agreements = 0
      then \<lparr>h_reply = ok (ViolationsData emptyResult), h_cache = c, h_fetched = []\<rparr>
      else
        (let allAssets = gatherAssets envIds fetchAssets in
         case mapE (\<lambda>a. validateAsset a agreements) allAssets of
           Inl err \<Rightarrow>
             \<lparr>h_reply = failed ''Failed to get violations'', h_cache = c, h_fetched = envIds\<rparr>
         | Inr results \<Rightarrow>
             (let violationsOnly = filter (\<lambda>r. \<not> compliant r) results;
                  report =
                    ViolationsData
                      \<lparr>vr_violations = violationsOnly,
                       vr_totalAssets = length allAssets,
                       vr_compliantAssets = length allAssets - length violationsOnly,
                       vr_violatingAssets = length violationsOnly,
                       vr_note = None\<rparr>
              in \<lparr>h_reply = ok report,
                  h_cache = c(''violations'' \<mapsto> \<lparr>data = report, timestamp = atStore t\<rparr>),
                  h_fetched = envIds\<rparr>)))"

definition getViolations ::
  "clock_reads \<Rightarrow> validationCache \<Rightarrow> string list \<Rightarrow> agreement list
   \<Rightarrow> (string \<Rightarrow> http_error + asset list) \<Rightarrow> handled" where
  "getViolations t c envIds agreements fetchAssets =
     (case freshEntry t c ''violations'' of
        Some cached \<Rightarrow> \<lparr>h_reply = ok (data cached), h_cache = c, h_fetched = []\<rparr>
      | None \<Rightarrow> computeViolations t c envIds agreements fetchAssets)"

subsection \<open>\<open>POST /validate-all\<close> (lines 356-399)\<close>

definition postValidateAll ::
  "clock_reads \<Rightarrow> validationCache \<Rightarrow> string list \<Rightarrow> agreement list
   \<Rightarrow> (string \<Rightarrow> http_error + asset list) \<Rightarrow> handled" where
  "postValidateAll t c envIds agreements fetchAssets =
     (case freshEntry t c ''validate_all'' of
        Some cached \<Rightarrow> \<lparr>h_reply = ok (data cached), h_cache = c, h_fetched = []\<rparr>
      | None \<Rightarrow>
          (let allAssets = gatherAssets envIds fetchAssets in
           case mapE (\<lambda>a. validateAsset a agreements) allAssets of
             Inl err \<Rightarrow>
               \<lparr>h_reply = failed ''Failed to validate all assets'', h_cache = c,
                h_fetched = envIds\<rparr>
           | Inr results \<Rightarrow>
               (let response =
                      ValidateAllData
                        \<lparr>va_results = results,
                         va_total = length results,
                         va_compliant = length (filter compliant results),
                         va_nonCompliant = length (filter (\<lambda>r. \<not> compliant r) results)\<rparr>
                in \<lparr>h_reply = ok response,
                    h_cache = c(''validate_all'' \<mapsto> \<lparr>data = response, timestamp = atStore t\<rparr>),
                    h_fetched = envIds\<rparr>)))"

subsection \<open>\<open>GET /overview\<close> (lines 81-190)\<close>

text \<open>
  \<open>Math.round((compliant / total) * 100)\<close> is computed in floating point; it is the
  parameter \<open>pct\<close> of the model.
\<close>

definition defaultOverview :: "clock_reads \<Rightarrow> overview" where
  "defaultOverview t =
     \<lparr>overall =
        \<lparr>o_totalAssets = 0, o_totalCatalogs = 0, o_catalogsScanned = 0,
         o_compliantAssets = 0, o_nonCompliantAssets = 0, o_criticalViolations = 0,
         o_compliancePercentage = 0, o_note = LoadingAssets\<rparr>,
      byEnvironment = [], lastUpdated = atStamp t\<rparr>"

text \<open>
  Lines 140-153, the body of the \<open>forEach\<close> that groups the results: \<open>byEnvironment\<close> is
  an object keyed by environment id, here the list of its values in insertion order
  (which is the order of \<open>Object.values\<close> unless an id is written as an integer).
\<close>

definition countResult :: "environment_stats list \<Rightarrow> validation_result \<Rightarrow> environment_stats list" where
  "countResult groups r =
     (let groups' =
            (if list_ex (\<lambda>g. e_environmentId g = r_environmentId r) groups then groups
             else groups
                  @ [\<lparr>e_environmentId = r_environmentId r, e_totalAssets = 0,
                       e_compliantAssets = 0, e_compliancePercentage = 0\<rparr>])
      in map (\<lambda>g. if e_environmentId g = r_environmentId r
                   then g\<lparr>e_totalAssets := e_totalAssets g + 1,
                          e_compliantAssets :=
                            e_compliantAssets g + (if compliant r then 1 else 0)\<rparr>
                   else g) groups')"

definition getOverview ::
  "(nat \<Rightarrow> nat \<Rightarrow> int) \<Rightarrow> clock_reads \<Rightarrow> validationCache \<Rightarrow> string list \<Rightarrow> agreement list
   \<Rightarrow> (string \<Rightarrow> http_error + asset list) \<Rightarrow> handled" where
  "getOverview pct t c envIds agreements fetchAssets =
     (case freshEntry t c ''compliance_overview'' of
        Some cached \<Rightarrow> \<lparr>h_reply = ok (data cached), h_cache = c, h_fetched = []\<rparr>
      | None \<Rightarrow>
          (let detailedAssets = gatherAssets envIds fetchAssets in
           if length detailedAssets = 0
           then \<lparr>h_reply = ok (OverviewData (defaultOverview t)), h_cache = c,
                 h_fetched = envIds\<rparr>
           else
             (case mapE (\<lambda>a. validateAsset a agreements) detailedAssets of
                Inl err \<Rightarrow>
                  \<lparr>h_reply = failed ''Failed to get compliance overview'', h_cache = c,
                   h_fetched = envIds\<rparr>
              | Inr results \<Rightarrow>
                  (let compliantAssets = length (filter compliant results);
                       criticalViolations =
                         foldl (\<lambda>count r. count
                             + length (filter (\<lambda>v. v_severity v = Some ''critical'') (violations r)))
                           0 results;
                       environmentStats =
                         map (\<lambda>g. g\<lparr>e_compliancePercentage :=
                                (if e_totalAssets g > 0
                                 then pct (e_compliantAssets g) (e_totalAssets g) else 0)\<rparr>)
                           (foldl countResult [] results);
                       uniqueCatalogs = length (remdups (map catalog_name detailedAssets));
                       response =
                         OverviewData
                           \<lparr>overall =
                              \<lparr>o_totalAssets = length detailedAssets,
                               o_totalCatalogs = uniqueCatalogs,
                               o_catalogsScanned = uniqueCatalogs,
                               o_compliantAssets = compliantAssets,
                               o_nonCompliantAssets = length detailedAssets - compliantAssets,
                               o_criticalViolations = criticalViolations,
                               o_compliancePercentage =
                                 (if length detailedAssets > 0
                                  then pct compliantAssets (length detailedAssets) else 0),
                               o_note = ShowingScannedShares uniqueCatalogs\<rparr>,
                            byEnvironment = environmentStats,
                            lastUpdated = atStamp t\<rparr>
                   in \<lparr>h_reply = ok response,
                       h_cache =
                         c(''compliance_overview'' \<mapsto> \<lparr>data = response, timestamp = atStore t\<rparr>),
                       h_fetched = envIds\<rparr>))))"

text \<open>Two requests, 980 ms apart, and the empty replies of the two routes.\<close>

definition first_request :: clock_reads where
  "first_request = \<lparr>atCheck = 1000, atStamp = 1010, atStore = 1020\<rparr>"

definition second_request :: clock_reads where
  "second_request = \<lparr>atCheck = 2000, atStamp = 2010, atStore = 2020\<rparr>"

definition no_results :: payload where
  "no_results =
     ValidateAllData \<lparr>va_results = [], va_total = 0, va_compliant = 0, va_nonCompliant = 0\<rparr>"

definition no_violations :: payload where
  "no_violations =
     ViolationsData
       \<lparr>vr_violations = [], vr_totalAssets = 0, vr_compliantAssets = 0,
        vr_violatingAssets = 0, vr_note = None\<rparr>"

subsection \<open>Properties of the cached routes\<close>

lemma gatherAssets_none: "gatherAssets envIds (\<lambda>e. Inr []) = []"
proof -
  have "foldl (\<lambda>acc envId. case (Inr [] :: http_error + asset list) of
          Inl err \<Rightarrow> acc | Inr assets \<Rightarrow> acc @ assets) acc envIds = acc" for acc :: "asset list"
    by (induction envIds arbitrary: acc) simp_all
  then show ?thesis by (simp add: gatherAssets_def)
qed

text \<open>
  Claim C8. With an empty list of agreements the violations computation (lines 277-292)
  replies with the empty result (no violations, zero assets in total, zero violating
  assets), leaves the cache as it is and asks for the assets of no environment, whatever
  the environments hold; this is the reply of the route whenever the cache has no fresh
  entry for it.
\<close>

theorem violations_short_circuit:
  "computeViolations t c envIds [] fetchAssets =
     \<lparr>h_reply = ok (ViolationsData emptyResult), h_cache = c, h_fetched = []\<rparr>
   \<and> vr_violations emptyResult = [] \<and> vr_totalAssets emptyResult = 0
   \<and> vr_violatingAssets emptyResult = 0
   \<and> (freshEntry t c ''violations'' = None \<longrightarrow>
        getViolations t c envIds [] fetchAssets =
          \<lparr>h_reply = ok (ViolationsData emptyResult), h_cache = c, h_fetched = []\<rparr>)"
  by (simp add: computeViolations_def getViolations_def emptyResult_def)

text \<open>
  Claim C8 on an empty cache, with two environments that hold assets: none is fetched.
\<close>

theorem violations_short_circuit_witness:
  "getViolations first_request Map.empty [''prod'', ''dev''] []
     (\<lambda>e. Inr [orders_asset e, blank_pii_asset]) =
     \<lparr>h_reply = ok (ViolationsData emptyResult), h_cache = Map.empty, h_fetched = []\<rparr>"
proof -
  have miss: "freshEntry first_request Map.empty ''violations'' = None"
    by (simp add: freshEntry_def)
  from violations_short_circuit
    [of first_request Map.empty "[''prod'', ''dev'']" "\<lambda>e. Inr [orders_asset e, blank_pii_asset]"]
    miss
  show ?thesis by simp
qed

lemma first_validate_all:
  "postValidateAll first_request Map.empty [''prod''] [] (\<lambda>e. Inr []) =
     \<lparr>h_reply = ok no_results,
      h_cache = [''validate_all'' \<mapsto> \<lparr>data = no_results, timestamp = 1020\<rparr>],
      h_fetched = [''prod'']\<rparr>"
  by (simp add: postValidateAll_def freshEntry_def gatherAssets_none first_request_def
      no_results_def Let_def)

lemma first_violations:
  "getViolations first_request Map.empty [''prod''] [pii_agreement] (\<lambda>e. Inr []) =
     \<lparr>h_reply = ok no_violations,
      h_cache = [''violations'' \<mapsto> \<lparr>data = no_violations, timestamp = 1020\<rparr>],
      h_fetched = [''prod'']\<rparr>"
  by (simp add: getViolations_def computeViolations_def freshEntry_def gatherAssets_none
      first_request_def no_violations_def Let_def)

text \<open>
  Claim C7 fails on the code. \<open>POST /validate-all\<close> with no agreement and no asset stores
  its empty response, and \<open>GET /violations\<close> with an agreement and no asset yet stores its
  empty report. A second request, made 980 ms later when an agreement exists and an asset
  has been discovered, gets the stored empty reply without any recomputation.
\<close>

theorem empty_results_are_cached:
  "h_cache (postValidateAll first_request Map.empty [''prod''] [] (\<lambda>e. Inr [])) ''validate_all''
     = Some \<lparr>data = no_results, timestamp = 1020\<rparr>
   \<and> postValidateAll second_request
        (h_cache (postValidateAll first_request Map.empty [''prod''] [] (\<lambda>e. Inr [])))
        [''prod''] [pii_agreement] (\<lambda>e. Inr [blank_pii_asset])
     = \<lparr>h_reply = ok no_results,
        h_cache = h_cache (postValidateAll first_request Map.empty [''prod''] [] (\<lambda>e. Inr [])),
        h_fetched = []\<rparr>
   \<and> h_cache (getViolations first_request Map.empty [''prod''] [pii_agreement] (\<lambda>e. Inr []))
        ''violations''
     = Some \<lparr>data = no_violations, timestamp = 1020\<rparr>
   \<and> getViolations second_request
        (h_cache (getViolations first_request Map.empty [''prod''] [pii_agreement] (\<lambda>e. Inr [])))
        [''prod''] [pii_agreement] (\<lambda>e. Inr [blank_pii_asset])
     = \<lparr>h_reply = ok no_violations,
        h_cache = h_cache (getViolations first_request Map.empty [''prod''] [pii_agreement]
          (\<lambda>e. Inr [])),
        h_fetched = []\<rparr>"
  unfolding first_validate_all first_violations
  by (simp add: postValidateAll_def getViolations_def freshEntry_def second_request_def
      VALIDATION_CACHE_TTL_def)

text \<open>
  The two replies the code does keep out of the cache: the zero-agreements reply of
  \<open>GET /violations\<close> and the zero-assets reply of \<open>GET /overview\<close>.
\<close>

lemma guarded_replies_not_cached:
  "(length agreements = 0 \<longrightarrow> h_cache (getViolations t c envIds agreements fetchAssets) = c)
   \<and> (gatherAssets envIds fetchAssets = [] \<longrightarrow>
        h_cache (getOverview pct t c envIds agreements fetchAssets) = c)"
  by (simp add: getViolations_def computeViolations_def getOverview_def split: option.splits)

section \<open>Single flight: \<open>getAllShareTables\<close> (lines 570-597)\<close>

text \<open>
  JavaScript runs one task at a time, and a task gives way only at an \<open>await\<close>. So a call
  of \<open>getAllShareTables\<close> is two uninterrupted steps: from its entry to its first \<open>await\<close>
  (or to its return, on a cache hit), and from the settling of the awaited promise to its
  return. \<open>_fetchAllAssets\<close> reaches its own first \<open>await\<close> without touching the asset
  cache or \<open>activeRequests\<close>, so starting it on line 587 is part of the first step. The
  model has one operation for each of the two steps.

  The state holds the entries of \<open>cache\<close> under the \<open>all_assets:\<close> keys (data and
  timestamp), the map \<open>activeRequests\<close> (the promise of a crawl is the number of the crawl),
  the environments of the crawls started so far, the callers suspended at an \<open>await\<close>
  (in the order in which they will resume), and the callers that have returned with what
  they got. The writes of a crawl to the asset cache (after each catalog, and at its end)
  are not steps of the model: a caller that arrives after one of them finds an unexpired
  entry and is served from the cache.
\<close>

datatype 'a settled = Resolved 'a | Rejected http_error

record waiter =
  w_caller :: nat
  w_promise :: nat
  w_owner :: bool

record flight =
  assetCache :: "string \<rightharpoonup> asset list \<times> int"
  activeRequests :: "string \<rightharpoonup> nat"
  crawls :: "string list"
  waiting :: "waiter list"
  returned :: "(nat \<times> asset list settled) list"

definition CACHE_TTL :: int where
  "CACHE_TTL = 5 * 60 * 1000"

definition cacheKey :: "string \<Rightarrow> string" where
  "cacheKey envId = ''all_assets:'' @ envId"

definition requestKey :: "string \<Rightarrow> string" where
  "requestKey envId = ''fetch_assets:'' @ envId"

text \<open>Line 574: \<open>cached && Date.now() - cached.timestamp < CACHE_TTL\<close>.\<close>

definition freshAssets :: "int \<Rightarrow> (asset list \<times> int) option \<Rightarrow> asset list option" where
  "freshAssets now cached =
     (case cached of
        None \<Rightarrow> None
      | Some entry \<Rightarrow> if now - snd entry < CACHE_TTL then Some (fst entry) else None)"

text \<open>
  Lines 571-591, the first step of a call made at time \<open>now\<close>: a cache hit returns; a
  caller that finds a marker awaits the promise stored there; otherwise the caller starts
  a crawl, stores its promise under the marker and awaits it (this caller will run the
  \<open>finally\<close> block, and is called the owner).
\<close>

definition getAllShareTables :: "string \<Rightarrow> flight \<Rightarrow> nat \<times> int \<Rightarrow> flight" where
  "getAllShareTables envId s call =
     (let caller = fst call; now = snd call in
      case freshAssets now (assetCache s (cacheKey envId)) of
        Some cachedData \<Rightarrow> s\<lparr>returned := returned s @ [(caller, Resolved cachedData)]\<rparr>
      | None \<Rightarrow>
          (case activeRequests s (requestKey envId) of
             Some p \<Rightarrow>
               s\<lparr>waiting := waiting s @ [\<lparr>w_caller = caller, w_promise = p, w_owner = False\<rparr>]\<rparr>
           | None \<Rightarrow>
               (let fetchPromise = length (crawls s) in
                s\<lparr>crawls := crawls s @ [envId],
                  activeRequests := (activeRequests s)(requestKey envId \<mapsto> fetchPromise),
                  waiting := waiting s
                    @ [\<lparr>w_caller = caller, w_promise = fetchPromise, w_owner = True\<rparr>]\<rparr>)))"

text \<open>
  The second step, when the promise of crawl \<open>p\<close> settles (lines 583 and 591-596): every
  caller awaiting it returns its value, or throws its error; the owner's \<open>finally\<close> block
  deletes the marker of the crawl's environment.
\<close>

definition settle :: "nat \<Rightarrow> asset list settled \<Rightarrow> flight \<Rightarrow> flight" where
  "settle p outcome s =
     (if p < length (crawls s)
      then
        (let resumed = filter (\<lambda>w. w_promise w = p) (waiting s) in
         s\<lparr>waiting := filter (\<lambda>w. w_promise w \<noteq> p) (waiting s),
           returned := returned s @ map (\<lambda>w. (w_caller w, outcome)) resumed,
           activeRequests :=
             (if list_ex w_owner resumed
              then (activeRequests s)(requestKey (crawls s ! p) := None)
              else activeRequests s)\<rparr>)
      else s)"

text \<open>Several calls for one environment, made one after the other while nothing settles.\<close>

definition callAll :: "string \<Rightarrow> flight \<Rightarrow> (nat \<times> int) list \<Rightarrow> flight" where
  "callAll envId s cs = foldl (getAllShareTables envId) s cs"

text \<open>A state in which every suspended caller awaits a crawl that has been started.\<close>

definition awaitsStarted :: "flight \<Rightarrow> bool" where
  "awaitsStarted s = list_all (\<lambda>w. w_promise w < length (crawls s)) (waiting s)"

text \<open>A fresh process, and three callers at times 10, 11 and 12.\<close>

definition fresh_process :: flight where
  "fresh_process =
     \<lparr>assetCache = Map.empty, activeRequests = Map.empty, crawls = [], waiting = [],
      returned = []\<rparr>"

definition three_callers :: "(nat \<times> int) list" where
  "three_callers = [(1, 10), (2, 11), (3, 12)]"

subsection \<open>Properties of the single flight\<close>

lemma callAll_joins:
  assumes "activeRequests s (requestKey envId) = Some p"
    and "list_all (\<lambda>c. freshAssets (snd c) (assetCache s (cacheKey envId)) = None) cs"
  shows "callAll envId s cs =
     s\<lparr>waiting := waiting s
        @ map (\<lambda>c. \<lparr>w_caller = fst c, w_promise = p, w_owner = False\<rparr>) cs\<rparr>"
  using assms
proof (induction cs arbitrary: s)
  case Nil
  then show ?case by (simp add: callAll_def)
next
  case (Cons c cs)
  let ?s1 = "s\<lparr>waiting := waiting s @ [\<lparr>w_caller = fst c, w_promise = p, w_owner = False\<rparr>]\<rparr>"
  from Cons.prems have step: "getAllShareTables envId s c = ?s1"
    by (simp add: getAllShareTables_def)
  have "callAll envId ?s1 cs =
      ?s1\<lparr>waiting := waiting ?s1 @ map (\<lambda>c. \<lparr>w_caller = fst c, w_promise = p, w_owner = False\<rparr>) cs\<rparr>"
    using Cons.prems by (intro Cons.IH) simp_all
  then show ?case by (simp add: callAll_def step)
qed

lemma callAll_first:
  assumes idle: "activeRequests s (requestKey envId) = None"
    and stale: "list_all (\<lambda>c. freshAssets (snd c) (assetCache s (cacheKey envId)) = None) (c # cs)"
  shows "callAll envId s (c # cs) =
     s\<lparr>crawls := crawls s @ [envId],
       activeRequests := (activeRequests s)(requestKey envId \<mapsto> length (crawls s)),
       waiting := waiting s
         @ \<lparr>w_caller = fst c, w_promise = length (crawls s), w_owner = True\<rparr>
         # map (\<lambda>c. \<lparr>w_caller = fst c, w_promise = length (crawls s), w_owner = False\<rparr>) cs\<rparr>"
proof -
  let ?p = "length (crawls s)"
  let ?s1 = "s\<lparr>crawls := crawls s @ [envId],
       activeRequests := (activeRequests s)(requestKey envId \<mapsto> ?p),
       waiting := waiting s @ [\<lparr>w_caller = fst c, w_promise = ?p, w_owner = True\<rparr>]\<rparr>"
  from idle stale have step: "getAllShareTables envId s c = ?s1"
    by (simp add: getAllShareTables_def Let_def)
  have "callAll envId ?s1 cs =
      ?s1\<lparr>waiting := waiting ?s1 @ map (\<lambda>c. \<lparr>w_caller = fst c, w_promise = ?p, w_owner = False\<rparr>) cs\<rparr>"
    using stale by (intro callAll_joins) simp_all
  then show ?thesis by (simp add: callAll_def step)
qed

text \<open>
  Claim C2. Start in a state with no crawl in flight for the environment, and let \<open>N \<ge> 1\<close>
  callers call \<open>getAllShareTables\<close> for it, each at a time at which the asset cache holds no
  unexpired entry, before the crawl settles. Then exactly one crawl is started, and its
  promise is the in-flight marker; no caller has returned yet. When the crawl settles,
  resolved or rejected, each of the \<open>N\<close> callers returns that one outcome, the marker is
  removed, and the callers that were awaiting other crawls are still waiting.
\<close>

theorem single_flight:
  assumes idle: "activeRequests s (requestKey envId) = None"
    and stale: "list_all (\<lambda>c. freshAssets (snd c) (assetCache s (cacheKey envId)) = None) cs"
    and some: "cs \<noteq> []"
    and started: "awaitsStarted s"
  shows "crawls (callAll envId s cs) = crawls s @ [envId]
     \<and> activeRequests (callAll envId s cs) (requestKey envId) = Some (length (crawls s))
     \<and> returned (callAll envId s cs) = returned s
     \<and> returned (settle (length (crawls s)) outcome (callAll envId s cs)) =
         returned s @ map (\<lambda>c. (fst c, outcome)) cs
     \<and> activeRequests (settle (length (crawls s)) outcome (callAll envId s cs)) (requestKey envId)
         = None
     \<and> waiting (settle (length (crawls s)) outcome (callAll envId s cs)) = waiting s"
proof -
  from some obtain c rest where cs: "cs = c # rest" by (cases cs) auto
  let ?p = "length (crawls s)"
  let ?new = "\<lparr>w_caller = fst c, w_promise = ?p, w_owner = True\<rparr>
         # map (\<lambda>c. \<lparr>w_caller = fst c, w_promise = ?p, w_owner = False\<rparr>) rest"
  have called: "callAll envId s cs =
     s\<lparr>crawls := crawls s @ [envId],
       activeRequests := (activeRequests s)(requestKey envId \<mapsto> ?p),
       waiting := waiting s @ ?new\<rparr>"
    using callAll_first [OF idle stale [unfolded cs]] by (simp add: cs)
  from started have old: "\<forall>w \<in> set (waiting s). w_promise w \<noteq> ?p"
    by (auto simp: awaitsStarted_def list_all_iff)
  then have keep: "filter (\<lambda>w. w_promise w = ?p) (waiting s) = []"
    and keep': "filter (\<lambda>w. w_promise w \<noteq> ?p) (waiting s) = waiting s"
    by (simp_all add: filter_empty_conv filter_id_conv)
  have new: "filter (\<lambda>w. w_promise w = ?p) ?new = ?new"
    and new': "filter (\<lambda>w. w_promise w \<noteq> ?p) ?new = []"
    by (simp_all add: filter_empty_conv filter_id_conv)
  have names: "map (\<lambda>w. (w_caller w, outcome)) ?new = map (\<lambda>c. (fst c, outcome)) cs"
    by (simp add: cs comp_def)
  show ?thesis
    unfolding called settle_def
    using names by (simp add: keep keep' new new' Let_def)
qed

text \<open>
  Claim C2 with three callers in a fresh process: one crawl, the same assets for the three
  of them, and no marker left, whether the crawl resolves or rejects.
\<close>

theorem single_flight_witness:
  "crawls (callAll ''prod'' fresh_process three_callers) = [''prod'']
   \<and> returned (settle 0 (Resolved [orders_asset ''prod''])
        (callAll ''prod'' fresh_process three_callers)) =
       [(1, Resolved [orders_asset ''prod'']), (2, Resolved [orders_asset ''prod'']),
        (3, Resolved [orders_asset ''prod''])]
   \<and> activeRequests (settle 0 (Resolved [orders_asset ''prod''])
        (callAll ''prod'' fresh_process three_callers)) (requestKey ''prod'') = None
   \<and> activeRequests (settle 0 (Rejected \<lparr>status = Some 500, message = ''failed''\<rparr>)
        (callAll ''prod'' fresh_process three_callers)) (requestKey ''prod'') = None"
proof -
  have idle: "activeRequests fresh_process (requestKey ''prod'') = None"
    and stale: "list_all (\<lambda>c. freshAssets (snd c) (assetCache fresh_process (cacheKey ''prod'')) = None)
        three_callers"
    and some: "three_callers \<noteq> []"
    and started: "awaitsStarted fresh_process"
    by (simp_all add: fresh_process_def three_callers_def freshAssets_def awaitsStarted_def)
  from single_flight [OF idle stale some started, of "Resolved [orders_asset ''prod'']"]
    single_flight [OF idle stale some started, of "Rejected \<lparr>status = Some 500, message = ''failed''\<rparr>"]
  show ?thesis by (simp add: fresh_process_def three_callers_def)
qed

end
